theory Spec2Isabelle
  imports Complex_Main
begin

section \<open>Python values used by the crawler\<close>

text \<open>
  Exceptions are values. Only the classes that the modelled code raises or catches appear.
  \<open>ConfigurationError\<close> and \<open>InvalidURLError\<close> are the package's own classes
  (both derive from \<open>CrawlerError\<close>, which derives from \<open>Exception\<close>);
  \<open>ValueError\<close> and \<open>AttributeError\<close> are Python's built-in classes and are not
  subclasses of \<open>CrawlerError\<close>.
\<close>

datatype py_exception =
    ConfigurationError string
  | InvalidURLError string
  | CrawlerError string
  | ValueError string
  | AttributeError string

text \<open>Truth value of an \<open>Optional[str]\<close>: \<open>None\<close> and the empty string are false.\<close>

fun truthy :: "string option \<Rightarrow> bool" where
  "truthy None = False"
| "truthy (Some s) = (s \<noteq> [])"

section \<open>Binary64 floating point\<close>

text \<open>
  Python's \<open>float\<close> is IEEE 754 binary64. A finite float is the rational number it
  denotes; the two infinities and NaN are values of their own. The sign of zero is not
  kept: no statement of the package tells \<open>-0.0\<close> from \<open>0.0\<close>. Each operation computes
  the exact result and rounds it to the nearest float, ties to the even significand, as
  the hardware does. An integer that meets a float (the \<open>0\<close> that \<open>sum\<close> starts from, a
  list length, the \<open>0\<close> of \<open>max(0, x)\<close>) is the float of the same value.
\<close>

datatype float64 = Finite rat | Infinity bool | NaN

text \<open>\<open>Infinity True\<close> is the negative infinity.\<close>

definition pow2 :: "int \<Rightarrow> rat" where
  "pow2 k = (if k \<ge> 0 then 2 ^ nat k else 1 / 2 ^ nat (- k))"

text \<open>The number of binary digits of a positive integer.\<close>

function bit_length :: "int \<Rightarrow> int" where
  "bit_length n = (if n \<le> 0 then 0 else 1 + bit_length (n div 2))"
  by pat_completeness auto
termination
  by (relation "measure nat") auto

text \<open>The exponent \<open>e\<close> with \<open>2^e \<le> x < 2^(e+1)\<close>, for a positive rational \<open>x\<close>.\<close>

definition ilog2 :: "rat \<Rightarrow> int" where
  "ilog2 x =
     (let k = bit_length (fst (quotient_of x)) - bit_length (snd (quotient_of x))
      in if pow2 k \<le> x then k else k - 1)"

definition round_half_even :: "rat \<Rightarrow> int" where
  "round_half_even m =
     (let f = \<lfloor>m\<rfloor>; d = m - of_int f
      in if d < 1 / 2 then f
         else if d > 1 / 2 then f + 1
         else if even f then f else f + 1)"

text \<open>
  Rounding to binary64: 53 significant bits, the least exponent -1022 (below it the
  spacing stays at \<open>2^-1074\<close>), and infinity when the rounded value reaches
  \<open>2^1024\<close>.
\<close>

definition round64 :: "rat \<Rightarrow> float64" where
  "round64 x =
     (if x = 0 then Finite 0
      else (let e = max (ilog2 \<bar>x\<bar>) (- 1022);
                ulp = pow2 (e - 52);
                v = of_int (round_half_even (x / ulp)) * ulp
            in if v \<noteq> 0 \<and> ilog2 \<bar>v\<bar> \<ge> 1024 then Infinity (x < 0) else Finite v))"

fun fneg :: "float64 \<Rightarrow> float64" where
  "fneg (Finite a) = Finite (- a)"
| "fneg (Infinity s) = Infinity (\<not> s)"
| "fneg NaN = NaN"

fun fadd :: "float64 \<Rightarrow> float64 \<Rightarrow> float64" where
  "fadd (Finite a) (Finite b) = round64 (a + b)"
| "fadd (Finite a) (Infinity t) = Infinity t"
| "fadd (Infinity s) (Finite b) = Infinity s"
| "fadd (Infinity s) (Infinity t) = (if s = t then Infinity s else NaN)"
| "fadd NaN y = NaN"
| "fadd x NaN = NaN"

definition fsub :: "float64 \<Rightarrow> float64 \<Rightarrow> float64" where
  "fsub x y = fadd x (fneg y)"

fun fmul :: "float64 \<Rightarrow> float64 \<Rightarrow> float64" where
  "fmul (Finite a) (Finite b) = round64 (a * b)"
| "fmul (Finite a) (Infinity t) = (if a = 0 then NaN else Infinity (t \<noteq> (a < 0)))"
| "fmul (Infinity s) (Finite b) = (if b = 0 then NaN else Infinity (s \<noteq> (b < 0)))"
| "fmul (Infinity s) (Infinity t) = Infinity (s \<noteq> t)"
| "fmul NaN y = NaN"
| "fmul x NaN = NaN"

text \<open>\<open>x / n\<close> for a float \<open>x\<close> and a list length \<open>n\<close> that is not zero.\<close>

fun fdiv_len :: "float64 \<Rightarrow> nat \<Rightarrow> float64" where
  "fdiv_len (Finite a) n = round64 (a / of_nat n)"
| "fdiv_len (Infinity s) n = Infinity s"
| "fdiv_len NaN n = NaN"

text \<open>\<open>x > y\<close>: false whenever NaN takes part.\<close>

fun fgt :: "float64 \<Rightarrow> float64 \<Rightarrow> bool" where
  "fgt (Finite a) (Finite b) = (a > b)"
| "fgt (Finite a) (Infinity t) = t"
| "fgt (Infinity s) (Finite b) = (\<not> s)"
| "fgt (Infinity s) (Infinity t) = (\<not> s \<and> t)"
| "fgt NaN y = False"
| "fgt x NaN = False"

definition flt :: "float64 \<Rightarrow> float64 \<Rightarrow> bool" where
  "flt x y = fgt y x"

text \<open>
  \<open>sum(xs)\<close> for a list of floats in CPython 3.11: the additions are made from left
  to right, beginning with zero.
\<close>

definition py_sum :: "float64 list \<Rightarrow> float64" where
  "py_sum xs = foldl fadd (Finite 0) xs"

text \<open>\<open>max(a, b)\<close>: the first argument unless the second is greater.\<close>

definition py_max :: "float64 \<Rightarrow> float64 \<Rightarrow> float64" where
  "py_max a b = (if fgt b a then b else a)"

section \<open>String operations\<close>

text \<open>
  Python strings are modelled as \<open>string\<close> over ASCII text. The operations below are
  the \<open>str\<close> methods the package calls: \<open>startswith\<close>, \<open>endswith\<close>,
  \<open>lower\<close>, \<open>strip\<close>, \<open>split\<close>, \<open>split(sep, 1)\<close>, \<open>join\<close>.
\<close>

definition startswith :: "string \<Rightarrow> string \<Rightarrow> bool" where
  "startswith s p = (take (length p) s = p)"

definition endswith :: "string \<Rightarrow> string \<Rightarrow> bool" where
  "endswith s p = (length p \<le> length s \<and> drop (length s - length p) s = p)"

definition code_point :: "char \<Rightarrow> nat" where
  "code_point c = of_char c"

definition lower_char :: "char \<Rightarrow> char" where
  "lower_char c = (if 65 \<le> code_point c \<and> code_point c \<le> 90
                   then char_of (code_point c + 32) else c)"

definition lower :: "string \<Rightarrow> string" where
  "lower s = map lower_char s"

text \<open>\<open>str.isspace\<close> on ASCII: tab, LF, VT, FF, CR, the separators 0x1c to 0x1f, space.\<close>

definition is_space :: "char \<Rightarrow> bool" where
  "is_space c = ((9 \<le> code_point c \<and> code_point c \<le> 13)
                 \<or> (28 \<le> code_point c \<and> code_point c \<le> 32))"

definition strip :: "string \<Rightarrow> string" where
  "strip s = rev (dropWhile is_space (rev (dropWhile is_space s)))"

text \<open>\<open>s.split(c)\<close> for a one-character separator: never an empty list.\<close>

fun split :: "char \<Rightarrow> string \<Rightarrow> string list" where
  "split c [] = [[]]"
| "split c (x # xs) =
     (if x = c then [] # split c xs
      else (case split c xs of [] \<Rightarrow> [[x]] | y # ys \<Rightarrow> (x # y) # ys))"

text \<open>
  \<open>s.split(c, 1)\<close> when \<open>c in s\<close>: the text before the first \<open>c\<close> and the text
  after it.
\<close>

definition split_once :: "char \<Rightarrow> string \<Rightarrow> string \<times> string" where
  "split_once c s = (takeWhile (\<lambda>x. x \<noteq> c) s, drop 1 (dropWhile (\<lambda>x. x \<noteq> c) s))"

fun join :: "string \<Rightarrow> string list \<Rightarrow> string" where
  "join sep [] = []"
| "join sep [x] = x"
| "join sep (x # y # ys) = x @ sep @ join sep (y # ys)"

section \<open>The library functions \<open>urlparse\<close> and \<open>urljoin\<close>\<close>

text \<open>
  \<open>urllib.parse\<close> belongs to Python's standard library, not to the package. The functions
  of the package that call it take it as a parameter below. For evaluating them on
  concrete URLs this section transcribes \<open>urllib.parse\<close> of CPython 3.11.10 for
  ASCII text (\<open>_checknetloc\<close>, which only acts on a non-ASCII host, is left out). The
  check of a bracketed host, which calls the \<open>ipaddress\<close> module, is the parameter
  \<open>ok\<close>. Releases differ in \<open>urlunsplit\<close> for an empty host before a path that
  begins with two slashes, and releases before 3.11.4 do not check a bracketed host.
\<close>

record parse_result =
  scheme :: string
  netloc :: string
  path :: string
  params :: string
  query :: string
  fragment :: string

definition uses_relative :: "string list" where
  "uses_relative = ['''', ''ftp'', ''http'', ''gopher'', ''nntp'', ''imap'',
                    ''wais'', ''file'', ''https'', ''shttp'', ''mms'',
                    ''prospero'', ''rtsp'', ''rtsps'', ''rtspu'', ''sftp'',
                    ''svn'', ''svn+ssh'', ''ws'', ''wss'']"

definition uses_netloc :: "string list" where
  "uses_netloc = ['''', ''ftp'', ''http'', ''gopher'', ''nntp'', ''telnet'',
                  ''imap'', ''wais'', ''file'', ''mms'', ''https'', ''shttp'',
                  ''snews'', ''prospero'', ''rtsp'', ''rtsps'', ''rtspu'', ''rsync'',
                  ''svn'', ''svn+ssh'', ''sftp'', ''nfs'', ''git'', ''git+ssh'',
                  ''ws'', ''wss'']"

definition uses_params :: "string list" where
  "uses_params = ['''', ''ftp'', ''hdl'', ''prospero'', ''http'', ''imap'',
                  ''https'', ''shttp'', ''rtsp'', ''rtsps'', ''rtspu'', ''sip'',
                  ''sips'', ''mms'', ''sftp'', ''tel'']"

definition is_scheme_char :: "char \<Rightarrow> bool" where
  "is_scheme_char c =
     ((97 \<le> code_point c \<and> code_point c \<le> 122)
      \<or> (65 \<le> code_point c \<and> code_point c \<le> 90)
      \<or> (48 \<le> code_point c \<and> code_point c \<le> 57)
      \<or> c = CHR ''+'' \<or> c = CHR ''-'' \<or> c = CHR ''.'')"

definition is_ascii_alpha :: "char \<Rightarrow> bool" where
  "is_ascii_alpha c =
     ((97 \<le> code_point c \<and> code_point c \<le> 122)
      \<or> (65 \<le> code_point c \<and> code_point c \<le> 90))"

definition c0_control_or_space :: "char \<Rightarrow> bool" where
  "c0_control_or_space c = (code_point c \<le> 32)"

definition unsafe_url_byte :: "char \<Rightarrow> bool" where
  "unsafe_url_byte c = (code_point c = 9 \<or> code_point c = 13 \<or> code_point c = 10)"

definition is_netloc_delim :: "char \<Rightarrow> bool" where
  "is_netloc_delim c = (c = CHR ''/'' \<or> c = CHR ''?'' \<or> c = CHR ''#'')"

text \<open>\<open>_splitnetloc(url, 2)\<close>: the host part after \<open>//\<close> and the rest.\<close>

definition splitnetloc :: "string \<Rightarrow> string \<times> string" where
  "splitnetloc u =
     (takeWhile (\<lambda>c. \<not> is_netloc_delim c) (drop 2 u),
      dropWhile (\<lambda>c. \<not> is_netloc_delim c) (drop 2 u))"

text \<open>
  \<open>urlsplit(url, scheme)\<close> with \<open>allow_fragments=True\<close>. The result is scheme, netloc,
  path, query, fragment; \<open>ValueError\<close> is its only exception.
\<close>

definition urlsplit ::
  "(string \<Rightarrow> bool) \<Rightarrow> string \<Rightarrow> string
     \<Rightarrow> py_exception + (string \<times> string \<times> string \<times> string \<times> string)" where
  "urlsplit ok u0 scheme0 =
     (let u1 = filter (\<lambda>c. \<not> unsafe_url_byte c) (dropWhile c0_control_or_space u0);
          sch0 = filter (\<lambda>c. \<not> unsafe_url_byte c)
                   (rev (dropWhile c0_control_or_space
                      (rev (dropWhile c0_control_or_space scheme0))));
          cand = takeWhile (\<lambda>c. c \<noteq> CHR '':'') u1;
          has_scheme = (CHR '':'' \<in> set u1 \<and> cand \<noteq> [] \<and> is_ascii_alpha (hd u1)
                        \<and> list_all is_scheme_char cand);
          sch = (if has_scheme then lower cand else sch0);
          u2 = (if has_scheme then drop (length cand + 1) u1 else u1);
          has_netloc = (take 2 u2 = ''//'');
          nl = (if has_netloc then fst (splitnetloc u2) else []);
          u3 = (if has_netloc then snd (splitnetloc u2) else u2)
      in if has_netloc \<and> ((CHR ''['' \<in> set nl \<and> CHR '']'' \<notin> set nl)
                            \<or> (CHR '']'' \<in> set nl \<and> CHR ''['' \<notin> set nl))
         then Inl (ValueError ''Invalid IPv6 URL'')
         else if has_netloc \<and> CHR ''['' \<in> set nl \<and> CHR '']'' \<in> set nl
                 \<and> \<not> ok (fst (split_once CHR '']'' (snd (split_once CHR ''['' nl))))
         then Inl (ValueError ''invalid bracketed host'')
         else
           (let frag = (if CHR ''#'' \<in> set u3 then snd (split_once CHR ''#'' u3) else []);
                u4 = (if CHR ''#'' \<in> set u3 then fst (split_once CHR ''#'' u3) else u3);
                qry = (if CHR ''?'' \<in> set u4 then snd (split_once CHR ''?'' u4) else []);
                u5 = (if CHR ''?'' \<in> set u4 then fst (split_once CHR ''?'' u4) else u4)
            in Inr (sch, nl, u5, qry, frag)))"

text \<open>
  \<open>_splitparams(url)\<close>, called when \<open>';' in url\<close>: the parameters are cut at the first
  \<open>;\<close> of the last path segment.
\<close>

definition splitparams :: "string \<Rightarrow> string \<times> string" where
  "splitparams u =
     (if CHR ''/'' \<in> set u then
        (let last_seg = rev (takeWhile (\<lambda>c. c \<noteq> CHR ''/'') (rev u));
             front = take (length u - length last_seg) u
         in if CHR '';'' \<in> set last_seg
            then (front @ fst (split_once CHR '';'' last_seg), snd (split_once CHR '';'' last_seg))
            else (u, []))
      else split_once CHR '';'' u)"

definition urlparse_default :: "(string \<Rightarrow> bool) \<Rightarrow> string \<Rightarrow> string \<Rightarrow> py_exception + parse_result" where
  "urlparse_default ok u scheme0 =
     (case urlsplit ok u scheme0 of
        Inl e \<Rightarrow> Inl e
      | Inr (sch, nl, p, q, f) \<Rightarrow>
          (if sch \<in> set uses_params \<and> CHR '';'' \<in> set p
           then Inr \<lparr> scheme = sch, netloc = nl, path = fst (splitparams p),
                      params = snd (splitparams p), query = q, fragment = f \<rparr>
           else Inr \<lparr> scheme = sch, netloc = nl, path = p,
                      params = [], query = q, fragment = f \<rparr>))"

definition py_urlparse :: "(string \<Rightarrow> bool) \<Rightarrow> string \<Rightarrow> py_exception + parse_result" where
  "py_urlparse ok u = urlparse_default ok u []"

definition urlunsplit :: "string \<Rightarrow> string \<Rightarrow> string \<Rightarrow> string \<Rightarrow> string \<Rightarrow> string" where
  "urlunsplit sch nl u q f =
     (let u1 = (if nl \<noteq> [] \<or> (sch \<noteq> [] \<and> sch \<in> set uses_netloc) \<or> take 2 u = ''//''
                then ''//'' @ nl @ (if u \<noteq> [] \<and> take 1 u \<noteq> ''/'' then ''/'' @ u else u)
                else u);
          u2 = (if sch \<noteq> [] then sch @ '':'' @ u1 else u1);
          u3 = (if q \<noteq> [] then u2 @ ''?'' @ q else u2)
      in if f \<noteq> [] then u3 @ ''#'' @ f else u3)"

definition urlunparse :: "parse_result \<Rightarrow> string" where
  "urlunparse r =
     urlunsplit (scheme r) (netloc r)
       (if params r \<noteq> [] then path r @ '';'' @ params r else path r)
       (query r) (fragment r)"

text \<open>The loop of \<open>urljoin\<close> over the path segments, with its \<open>resolved_path\<close>.\<close>

fun resolve_segments :: "string list \<Rightarrow> string list \<Rightarrow> string list" where
  "resolve_segments resolved [] = resolved"
| "resolve_segments resolved (seg # segs) =
     (if seg = ''..'' then resolve_segments (butlast resolved) segs
      else if seg = ''.'' then resolve_segments resolved segs
      else resolve_segments (resolved @ [seg]) segs)"

text \<open>\<open>segments[1:-1] = filter(None, segments[1:-1])\<close>.\<close>

definition filter_inner :: "string list \<Rightarrow> string list" where
  "filter_inner segs =
     (if length segs < 2 then segs
      else hd segs # filter (\<lambda>s. s \<noteq> []) (butlast (tl segs)) @ [last segs])"

definition py_urljoin :: "(string \<Rightarrow> bool) \<Rightarrow> string \<Rightarrow> string \<Rightarrow> py_exception + string" where
  "py_urljoin ok base u =
     (if base = [] then Inr u
      else if u = [] then Inr base
      else case py_urlparse ok base of
        Inl e \<Rightarrow> Inl e
      | Inr b \<Rightarrow>
         (case urlparse_default ok u (scheme b) of
            Inl e \<Rightarrow> Inl e
          | Inr r \<Rightarrow>
             if scheme r \<noteq> scheme b \<or> scheme r \<notin> set uses_relative then Inr u
             else if scheme r \<in> set uses_netloc \<and> netloc r \<noteq> [] then Inr (urlunparse r)
             else
               (let r1 = (if scheme r \<in> set uses_netloc then r\<lparr>netloc := netloc b\<rparr> else r)
                in if path r1 = [] \<and> params r1 = [] then
                     Inr (urlunparse (r1\<lparr>path := path b, params := params b,
                            query := (if query r1 = [] then query b else query r1)\<rparr>))
                   else
                     (let base_parts0 = split CHR ''/'' (path b);
                          base_parts = (if last base_parts0 \<noteq> [] then butlast base_parts0
                                        else base_parts0);
                          segments = (if take 1 (path r1) = ''/'' then split CHR ''/'' (path r1)
                                      else filter_inner (base_parts @ split CHR ''/'' (path r1)));
                          resolved0 = resolve_segments [] segments;
                          resolved_path = (if last segments = ''.'' \<or> last segments = ''..''
                                           then resolved0 @ [[]] else resolved0);
                          joined = join ''/'' resolved_path
                      in Inr (urlunparse (r1\<lparr>path := (if joined = [] then ''/'' else joined)\<rparr>))))))"

section \<open>URL normalisation\<close>

text \<open>
  \<open>URLValidator.normalize_url\<close>. The \<open>try\<close> block calls \<open>urljoin\<close> and
  \<open>urlparse\<close>; any exception they raise is re-raised as \<open>InvalidURLError\<close> with the
  message \<open>Cannot normalize URL '{url}': {e}\<close>.
\<close>

fun exception_text :: "py_exception \<Rightarrow> string" where
  "exception_text (ConfigurationError m) = m"
| "exception_text (InvalidURLError m) = m"
| "exception_text (CrawlerError m) = m"
| "exception_text (ValueError m) = m"
| "exception_text (AttributeError m) = m"

text \<open>The statements after parsing: reconstruction, query, trailing slash.\<close>

definition rebuild :: "parse_result \<Rightarrow> string" where
  "rebuild parsed =
     (let normalized0 = scheme parsed @ ''://'' @ netloc parsed @ path parsed;
          normalized1 = (if query parsed \<noteq> [] then normalized0 @ ''?'' @ query parsed
                         else normalized0)
      in if endswith normalized1 ''/'' \<and> length (path parsed) > 1
         then butlast normalized1 else normalized1)"

definition normalize_url ::
  "(string \<Rightarrow> string \<Rightarrow> py_exception + string) \<Rightarrow> (string \<Rightarrow> py_exception + parse_result)
     \<Rightarrow> string \<Rightarrow> string \<Rightarrow> py_exception + string" where
  "normalize_url urljoin urlparse u base_url =
     (case urljoin base_url u of
        Inl e \<Rightarrow> Inl (InvalidURLError (''Cannot normalize URL '' @ [CHR 0x27] @ u @ [CHR 0x27]
                                         @ '': '' @ exception_text e))
      | Inr absolute_url \<Rightarrow>
          (case urlparse absolute_url of
             Inl e \<Rightarrow> Inl (InvalidURLError (''Cannot normalize URL '' @ [CHR 0x27] @ u @ [CHR 0x27]
                                              @ '': '' @ exception_text e))
           | Inr parsed \<Rightarrow> Inr (rebuild parsed)))"

section \<open>robots.txt rules\<close>

text \<open>
  \<open>RobotsTxtParser\<close>. \<open>float(value)\<close> is the parameter \<open>to_float\<close>, which gives
  \<open>None\<close> where Python raises \<open>ValueError\<close>. The local \<open>current_user_agent\<close> is read
  only to set \<open>applies_to_us\<close>, which is the loop's state here.
\<close>

record robots_txt_parser =
  robots_user_agent :: string
  disallowed_paths :: "string set"
  crawl_delay :: float64

definition parse_line ::
  "(string \<Rightarrow> float64 option) \<Rightarrow> string \<Rightarrow> bool \<times> robots_txt_parser \<Rightarrow> bool \<times> robots_txt_parser" where
  "parse_line to_float raw st =
     (let applies_to_us = fst st; rp = snd st; line = strip raw
      in if line = [] \<or> startswith line ''#'' then st
         else if CHR '':'' \<in> set line then
           (let directive = lower (strip (fst (split_once CHR '':'' line)));
                val = strip (snd (split_once CHR '':'' line))
            in if directive = ''user-agent'' then
                 (lower val = ''*'' \<or> lower val = robots_user_agent rp, rp)
               else if applies_to_us then
                 (if directive = ''disallow'' then
                    (if val \<noteq> [] then
                       (applies_to_us, rp\<lparr>disallowed_paths := insert val (disallowed_paths rp)\<rparr>)
                     else st)
                  else if directive = ''crawl-delay'' then
                    (case to_float val of
                       Some d \<Rightarrow> (applies_to_us, rp\<lparr>crawl_delay := py_max (crawl_delay rp) d\<rparr>)
                     | None \<Rightarrow> st)
                  else st)
               else st)
         else st)"

definition parse_robots_txt ::
  "(string \<Rightarrow> float64 option) \<Rightarrow> string \<Rightarrow> robots_txt_parser \<Rightarrow> robots_txt_parser" where
  "parse_robots_txt to_float content rp =
     snd (fold (parse_line to_float) (split (CHR 0x0A) content) (False, rp))"

definition RobotsTxtParser ::
  "(string \<Rightarrow> float64 option) \<Rightarrow> string \<Rightarrow> string \<Rightarrow> robots_txt_parser" where
  "RobotsTxtParser to_float robots_txt_content user_agent =
     parse_robots_txt to_float robots_txt_content
       \<lparr> robots_user_agent = lower user_agent, disallowed_paths = {}, crawl_delay = Finite 0 \<rparr>"

definition can_crawl :: "robots_txt_parser \<Rightarrow> string \<Rightarrow> bool" where
  "can_crawl rp url_path = (\<not> (\<exists>disallowed \<in> disallowed_paths rp. startswith url_path disallowed))"

section \<open>Proxy rotation\<close>

text \<open>
  A proxy is a dictionary from scheme to address. \<open>str(proxy)\<close>, the key kept in the
  failed set, is the parameter \<open>str_of\<close>. The \<open>itertools.cycle\<close> iterator is the list
  it cycles together with the number of items it has handed out; the constructor and
  \<open>add_proxy\<close> create it over a non-empty list only.
\<close>

type_synonym proxy = "(string \<times> string) list"

type_synonym cycle = "proxy list \<times> nat"

record proxy_rotator =
  proxies :: "proxy list"
  iterator :: "cycle option"
  failed_proxies :: "string set"

definition cycle_next :: "cycle \<Rightarrow> proxy \<times> cycle" where
  "cycle_next it = (fst it ! (snd it mod length (fst it)), (fst it, Suc (snd it)))"

definition new_iterator :: "proxy list \<Rightarrow> cycle option" where
  "new_iterator ps = (if ps \<noteq> [] then Some (ps, 0) else None)"

text \<open>
  \<open>ProxyRotator.__init__\<close> with \<open>_validate_proxies\<close>; \<open>alive p\<close> says that the test
  request through \<open>p\<close> answered with status 200.
\<close>

definition ProxyRotator :: "(proxy \<Rightarrow> bool) \<Rightarrow> proxy list \<Rightarrow> bool \<Rightarrow> proxy_rotator" where
  "ProxyRotator alive ps validate_on_init =
     (if validate_on_init \<and> ps \<noteq> []
      then \<lparr> proxies = filter alive ps, iterator = new_iterator (filter alive ps),
             failed_proxies = {} \<rparr>
      else \<lparr> proxies = ps, iterator = new_iterator ps, failed_proxies = {} \<rparr>)"

text \<open>
  The \<open>while attempts < max_attempts\<close> loop of \<open>get_next\<close>; the first argument counts
  the attempts that remain.
\<close>

fun try_proxies :: "(proxy \<Rightarrow> string) \<Rightarrow> string set \<Rightarrow> nat \<Rightarrow> cycle \<Rightarrow> proxy option \<times> cycle" where
  "try_proxies str_of failed 0 it = (None, it)"
| "try_proxies str_of failed (Suc n) it =
     (if str_of (fst (cycle_next it)) \<notin> failed
      then (Some (fst (cycle_next it)), snd (cycle_next it))
      else try_proxies str_of failed n (snd (cycle_next it)))"

definition get_next :: "(proxy \<Rightarrow> string) \<Rightarrow> proxy_rotator \<Rightarrow> proxy option \<times> proxy_rotator" where
  "get_next str_of r =
     (case iterator r of
        None \<Rightarrow> (None, r)
      | Some it \<Rightarrow>
          if proxies r = [] then (None, r)
          else (case try_proxies str_of (failed_proxies r) (length (proxies r)) it of
                  (Some proxy, it') \<Rightarrow> (Some proxy, r\<lparr>iterator := Some it'\<rparr>)
                | (None, it') \<Rightarrow>
                    (Some (fst (cycle_next it')),
                     r\<lparr>failed_proxies := {}, iterator := Some (snd (cycle_next it'))\<rparr>)))"

definition mark_failed :: "(proxy \<Rightarrow> string) \<Rightarrow> proxy \<Rightarrow> proxy_rotator \<Rightarrow> proxy_rotator" where
  "mark_failed str_of p r = r\<lparr>failed_proxies := insert (str_of p) (failed_proxies r)\<rparr>"

text \<open>
  Equality of two dictionaries, each written as the list of its items with distinct
  keys: the same items, in any order.
\<close>

definition dict_eq :: "proxy \<Rightarrow> proxy \<Rightarrow> bool" where
  "dict_eq p q = (set p = set q)"

definition add_proxy :: "(proxy \<Rightarrow> bool) \<Rightarrow> proxy \<Rightarrow> bool \<Rightarrow> proxy_rotator \<Rightarrow> bool \<times> proxy_rotator" where
  "add_proxy alive p validate r =
     (if validate \<and> \<not> alive p then (False, r)
      else if \<not> list_ex (dict_eq p) (proxies r)
      then (True, r\<lparr>proxies := proxies r @ [p], iterator := new_iterator (proxies r @ [p])\<rparr>)
      else (False, r))"

text \<open>The class invariant that the constructor and every method keep.\<close>

definition rotator_ok :: "proxy_rotator \<Rightarrow> bool" where
  "rotator_ok r =
     (case iterator r of
        None \<Rightarrow> proxies r = []
      | Some it \<Rightarrow> fst it = proxies r \<and> proxies r \<noteq> [])"

section \<open>Request pacing\<close>

text \<open>
  \<open>DelayManager\<close>, over binary64 floats. The two readings of \<open>time.time()\<close> in
  \<open>wait\<close> and the draw of \<open>random.random()\<close> inside \<open>random.uniform\<close> come from
  outside: \<open>now\<close>, \<open>after\<close> and \<open>draw\<close>. A base delay given as an \<open>int\<close> is the
  float of the same value.
\<close>

record delay_manager =
  base_delay :: float64
  strategy :: string
  request_count :: nat
  response_times :: "float64 list"
  last_request_time :: float64

definition DelayManager :: "float64 \<Rightarrow> string \<Rightarrow> delay_manager" where
  "DelayManager b s =
     \<lparr> base_delay = b, strategy = s, request_count = 0, response_times = [],
       last_request_time = Finite 0 \<rparr>"

text \<open>The window update at the head of \<open>_calculate_adaptive_delay\<close>.\<close>

definition push_response_time :: "float64 option \<Rightarrow> float64 list \<Rightarrow> float64 list" where
  "push_response_time response_time ts =
     (case response_time of
        None \<Rightarrow> ts
      | Some t \<Rightarrow> (if length (ts @ [t]) > 10 then tl (ts @ [t]) else ts @ [t]))"

text \<open>
  \<open>sum(self._response_times) / len(self._response_times)\<close>: the sum is rounded after
  each addition and the quotient is rounded once more.
\<close>

definition average :: "float64 list \<Rightarrow> float64" where
  "average ts = fdiv_len (py_sum ts) (length ts)"

definition calculate_adaptive_delay ::
  "delay_manager \<Rightarrow> float64 option \<Rightarrow> float64 \<times> delay_manager" where
  "calculate_adaptive_delay dm response_time =
     (let ts = push_response_time response_time (response_times dm);
          dm' = dm\<lparr>response_times := ts\<rparr>
      in if ts = [] then (base_delay dm, dm')
         else (let avg_response_time = average ts
               in if fgt avg_response_time (Finite 3) then (fmul (base_delay dm) (Finite 2), dm')
                  else if fgt avg_response_time (Finite 1)
                  then (fmul (base_delay dm) (Finite (3 / 2)), dm')
                  else (base_delay dm, dm')))"

text \<open>
  The local \<open>delay\<close> of \<open>wait\<close>, with the manager after the strategy has run.
  \<open>random.uniform(a, b)\<close> is \<open>a + (b - a) * random()\<close>; \<open>1.5 ** k\<close> for \<open>k\<close> up to
  five is exact.
\<close>

definition target_delay ::
  "delay_manager \<Rightarrow> float64 option \<Rightarrow> float64 \<Rightarrow> float64 \<times> delay_manager" where
  "target_delay dm response_time draw =
     (if strategy dm = ''fixed'' then (base_delay dm, dm)
      else if strategy dm = ''random'' then
        (fadd (fmul (base_delay dm) (Finite (1 / 2)))
           (fmul (fsub (fmul (base_delay dm) (Finite (3 / 2)))
                       (fmul (base_delay dm) (Finite (1 / 2)))) draw), dm)
      else if strategy dm = ''exponential'' then
        (fmul (base_delay dm) (Finite ((3 / 2) ^ (min (request_count dm div 10) 5))), dm)
      else if strategy dm = ''adaptive'' then calculate_adaptive_delay dm response_time
      else (base_delay dm, dm))"

text \<open>
  \<open>wait\<close> returns the time slept and the manager. \<open>time.sleep\<close> is taken to return;
  the \<open>OverflowError\<close> that it raises for a delay of more than about 9.2e9 seconds
  is not modelled.
\<close>

definition wait ::
  "delay_manager \<Rightarrow> float64 option \<Rightarrow> float64 \<Rightarrow> float64 \<Rightarrow> float64
     \<Rightarrow> float64 \<times> delay_manager" where
  "wait dm response_time now draw after =
     (let delay = fst (target_delay dm response_time draw);
          dm1 = snd (target_delay dm response_time draw);
          time_since_last = fsub now (last_request_time dm1);
          actual_delay = py_max (Finite 0) (fsub delay time_since_last)
      in (actual_delay,
          dm1\<lparr>last_request_time := after, request_count := request_count dm1 + 1\<rparr>))"

definition reset :: "delay_manager \<Rightarrow> delay_manager" where
  "reset dm = dm\<lparr>request_count := 0, response_times := [], last_request_time := Finite 0\<rparr>"

section \<open>Page results and the crawl summary\<close>

text \<open>The dictionary built by \<open>WebCrawler.crawl_page\<close>, with its thirteen keys.\<close>

record page_data =
  url :: string
  title :: string
  meta_description :: string
  links :: "string list"
  status_code :: "int option"
  error :: "string option"
  timestamp :: float64
  content_type :: "string option"
  content_length :: "nat option"
  response_time :: "float64 option"
  user_agent_used :: string
  proxy_used :: "string option"
  retry_count :: nat

text \<open>
  \<open>[p for p in self.crawled_data if not p['error']]\<close>, the comprehension that
  \<open>get_summary\<close>, \<open>crawl\<close> and \<open>get_successful_urls\<close> share.
\<close>

definition successful :: "page_data list \<Rightarrow> page_data list" where
  "successful ps = filter (\<lambda>p. \<not> truthy (error p)) ps"

text \<open>
  The expression stored under \<open>'max_depth_reached'\<close>:
  \<open>max((0,) + tuple(len([p for p in data if not p['error']]) - 1 for p in data if not p['error']))\<close>.
\<close>

definition max_depth_reached :: "page_data list \<Rightarrow> int" where
  "max_depth_reached ps =
     Max (set (0 # map (\<lambda>p. int (length (successful ps)) - 1) (successful ps)))"

record summary =
  total_pages_crawled :: nat
  successful_pages :: nat
  failed_pages :: int
  total_links_found :: nat
  unique_urls_discovered :: nat
  domains_found :: nat
  summary_max_depth_reached :: int

text \<open>
  \<open>WebCrawler.get_summary\<close>. It reads \<open>crawled_data\<close> and \<open>visited_urls\<close>.
  \<open>urlparse\<close> is Python's library function, taken as a parameter that returns the
  \<open>netloc\<close> of a URL or raises; the first raise, in list order, leaves \<open>get_summary\<close>.
\<close>

fun netlocs :: "(string \<Rightarrow> py_exception + string) \<Rightarrow> page_data list \<Rightarrow> py_exception + string list" where
  "netlocs netloc_of [] = Inr []"
| "netlocs netloc_of (p # ps) =
     (if \<not> truthy (error p) then
        (case netloc_of (url p) of
           Inl e \<Rightarrow> Inl e
         | Inr d \<Rightarrow> (case netlocs netloc_of ps of Inl e \<Rightarrow> Inl e | Inr ds \<Rightarrow> Inr (d # ds)))
      else netlocs netloc_of ps)"

definition get_summary ::
  "(string \<Rightarrow> py_exception + string) \<Rightarrow> page_data list \<Rightarrow> string set \<Rightarrow> py_exception + summary" where
  "get_summary netloc_of crawled_data visited_urls =
     (let total_pages = length crawled_data;
          successful_pages = length (successful crawled_data);
          total_links = sum_list (map (\<lambda>p. length (links p)) crawled_data)
      in case netlocs netloc_of crawled_data of
           Inl e \<Rightarrow> Inl e
         | Inr ds \<Rightarrow>
             Inr \<lparr> total_pages_crawled = total_pages,
                   successful_pages = successful_pages,
                   failed_pages = int total_pages - int successful_pages,
                   total_links_found = total_links,
                   unique_urls_discovered = card visited_urls,
                   domains_found = card (set ds),
                   summary_max_depth_reached = max_depth_reached crawled_data \<rparr>)"

section \<open>Fetching one page\<close>

text \<open>
  \<open>WebCrawler.crawl_page\<close> assigns \<open>page_data['error']\<close> at nine places and nowhere
  else; \<open>page_outcome\<close> names them, with \<open>Extracted\<close> for the path that leaves
  \<open>error\<close> at \<open>None\<close>.
\<close>

datatype page_outcome =
    Extracted
  | BlockedByRobots
  | AllProxiesFailed
  | NoResponse
  | NonHTML string
  | HTTPStatus nat
  | RequestTimeout
  | ConnectionFailed string
  | RequestFailed string
  | Unexpected string

fun show_nat :: "nat \<Rightarrow> string" where
  "show_nat n = (if n < 10 then [char_of (48 + n)]
                 else show_nat (n div 10) @ [char_of (48 + n mod 10)])"

fun error_of :: "page_outcome \<Rightarrow> string option" where
  "error_of Extracted = None"
| "error_of BlockedByRobots = Some ''Blocked by robots.txt''"
| "error_of AllProxiesFailed = Some ''All proxies failed''"
| "error_of NoResponse = Some ''Failed to get response after retries''"
| "error_of (NonHTML ctype) = Some (''Non-HTML content: '' @ ctype)"
| "error_of (HTTPStatus code) = Some (''HTTP '' @ show_nat code)"
| "error_of RequestTimeout = Some ''Request timeout''"
| "error_of (ConnectionFailed e) = Some (''Connection error: '' @ take 100 e)"
| "error_of (RequestFailed e) = Some (''Request error: '' @ take 100 e)"
| "error_of (Unexpected e) = Some (''Unexpected error: '' @ take 100 e)"

text \<open>
  What the network, the extraction library and the clock contribute to one call of
  \<open>crawl_page\<close>: the values assigned to the keys of \<open>page_data\<close> other than \<open>url\<close>
  and \<open>error\<close>, the place where the call ended, and the clock readings and random draw
  that \<open>DelayManager.wait\<close> consumes in the \<open>finally\<close> block.
\<close>

record fetched =
  assigned :: page_data
  outcome :: page_outcome
  clock_now :: float64
  clock_draw :: float64
  clock_after :: float64

text \<open>
  The crawler object. \<open>io_state\<close> stands for everything outside the program that a
  fetch can read or change (network, sessions, proxies, robots cache).
\<close>

record 'w crawler =
  seed_url :: string
  max_depth :: int
  max_pages :: int
  visited_urls :: "string set"
  crawled_data :: "page_data list"
  url_queue :: "(string \<times> int) list"
  delay_manager :: delay_manager
  io_state :: 'w

text \<open>\<open>if page_data['response_time']\<close>: \<open>None\<close> and \<open>0.0\<close> are false.\<close>

definition truthy_time :: "float64 option \<Rightarrow> float64 option" where
  "truthy_time rt =
     (case rt of None \<Rightarrow> None | Some t \<Rightarrow> (if t = Finite 0 then None else Some t))"

definition crawl_page ::
  "('w \<Rightarrow> string \<Rightarrow> fetched \<times> 'w) \<Rightarrow> 'w crawler \<Rightarrow> string \<Rightarrow> page_data \<times> 'w crawler" where
  "crawl_page io s u =
     (let f = fst (io (io_state s) u);
          page = (assigned f)\<lparr>url := u, error := error_of (outcome f)\<rparr>;
          dm = snd (wait (delay_manager s) (truthy_time (response_time page))
                      (clock_now f) (clock_draw f) (clock_after f))
      in (page, s\<lparr>io_state := snd (io (io_state s) u), delay_manager := dm\<rparr>))"

section \<open>The crawl loop\<close>

datatype 'w step = Continue "'w crawler" int nat | Break "'w crawler"

definition max_consecutive_failures :: nat where
  "max_consecutive_failures = 10"

text \<open>The inner \<open>for link in page_data['links']\<close> loop with its guard.\<close>

definition enqueue_links :: "page_data \<Rightarrow> int \<Rightarrow> 'w crawler \<Rightarrow> 'w crawler" where
  "enqueue_links page depth s =
     (if depth < max_depth s \<and> links page \<noteq> []
      then s\<lparr>url_queue := url_queue s
                 @ map (\<lambda>link. (link, depth + 1))
                     (filter (\<lambda>link. link \<notin> visited_urls s) (links page))\<rparr>
      else s)"

text \<open>\<open>if page_data.get('status_code') == 429: self.delay_manager.base_delay *= 1.5\<close>.\<close>

definition rate_limited :: "page_data \<Rightarrow> 'w crawler \<Rightarrow> 'w crawler" where
  "rate_limited page s =
     (if status_code page = Some 429
      then s\<lparr>delay_manager := (delay_manager s)\<lparr>base_delay := fmul (base_delay (delay_manager s)) (Finite (3 / 2))\<rparr>\<rparr>
      else s)"

text \<open>
  One pass through the body of the \<open>while\<close> loop of \<open>WebCrawler.crawl\<close>, after
  \<open>popleft\<close> has produced \<open>(current_url, depth)\<close>; the arguments \<open>pages_crawled\<close> and
  \<open>consecutive_failures\<close> are the locals of \<open>crawl\<close>.
\<close>

definition crawl_iteration ::
  "('w \<Rightarrow> string \<Rightarrow> fetched \<times> 'w) \<Rightarrow> 'w crawler \<Rightarrow> string \<Rightarrow> int \<Rightarrow> int \<Rightarrow> nat \<Rightarrow> 'w step" where
  "crawl_iteration io s current_url depth pages_crawled consecutive_failures =
     (if current_url \<in> visited_urls s then Continue s pages_crawled consecutive_failures
      else if depth > max_depth s then Continue s pages_crawled consecutive_failures
      else
        (let s1 = s\<lparr>visited_urls := insert current_url (visited_urls s)\<rparr>;
             page = fst (crawl_page io s1 current_url);
             s2 = snd (crawl_page io s1 current_url);
             s3 = s2\<lparr>crawled_data := crawled_data s2 @ [page]\<rparr>
         in if truthy (error page) then
              (if consecutive_failures + 1 \<ge> max_consecutive_failures then Break s3
               else Continue (rate_limited page s3) (pages_crawled + 1) (consecutive_failures + 1))
            else Continue (rate_limited page (enqueue_links page depth s3)) (pages_crawled + 1) 0))"

function crawl_loop ::
  "('w \<Rightarrow> string \<Rightarrow> fetched \<times> 'w) \<Rightarrow> 'w crawler \<Rightarrow> int \<Rightarrow> nat \<Rightarrow> 'w crawler" where
  "crawl_loop io s pages_crawled consecutive_failures =
     (case url_queue s of
        [] \<Rightarrow> s
      | entry # rest \<Rightarrow>
          if pages_crawled < max_pages s then
            (case crawl_iteration io (s\<lparr>url_queue := rest\<rparr>) (fst entry) (snd entry)
                    pages_crawled consecutive_failures of
               Break s' \<Rightarrow> s'
             | Continue s' pages_crawled' consecutive_failures' \<Rightarrow>
                 crawl_loop io s' pages_crawled' consecutive_failures')
          else s)"
  by pat_completeness auto
termination
  by (relation "measures [\<lambda>(io, s, pc, cf). nat (max_pages s - pc),
                           \<lambda>(io, s, pc, cf). length (url_queue s)]")
     (auto simp: crawl_iteration_def crawl_page_def enqueue_links_def rate_limited_def Let_def
           split: if_splits)

text \<open>
  \<open>WebCrawler.crawl\<close>: the loop from fresh counters; the caller receives
  \<open>crawled_data\<close> of the crawler returned. \<open>crawl_page\<close> catches every
  \<open>Exception\<close> and no other statement of the loop raises, so the handler that turns
  an exception into \<open>CrawlerError\<close> is never entered. \<open>KeyboardInterrupt\<close> arrives
  from outside at any moment and is not part of this model.
\<close>

definition crawl :: "('w \<Rightarrow> string \<Rightarrow> fetched \<times> 'w) \<Rightarrow> 'w crawler \<Rightarrow> 'w crawler" where
  "crawl io s = crawl_loop io s 0 0"

text \<open>
  The frontier entries for which the loop calls \<open>crawl_page\<close> and appends a result, in
  order. It follows the recursion of \<open>crawl_loop\<close> and observes it; the program keeps
  no such list.
\<close>

function fetched_entries ::
  "('w \<Rightarrow> string \<Rightarrow> fetched \<times> 'w) \<Rightarrow> 'w crawler \<Rightarrow> int \<Rightarrow> nat \<Rightarrow> (string \<times> int) list" where
  "fetched_entries io s pages_crawled consecutive_failures =
     (case url_queue s of
        [] \<Rightarrow> []
      | entry # rest \<Rightarrow>
          if pages_crawled < max_pages s then
            (let here = (if fst entry \<in> visited_urls s \<or> snd entry > max_depth s then []
                         else [entry])
             in case crawl_iteration io (s\<lparr>url_queue := rest\<rparr>) (fst entry) (snd entry)
                       pages_crawled consecutive_failures of
                  Break s' \<Rightarrow> here
                | Continue s' pages_crawled' consecutive_failures' \<Rightarrow>
                    here @ fetched_entries io s' pages_crawled' consecutive_failures')
          else [])"
  by pat_completeness auto
termination
  by (relation "measures [\<lambda>(io, s, pc, cf). nat (max_pages s - pc),
                           \<lambda>(io, s, pc, cf). length (url_queue s)]")
     (auto simp: crawl_iteration_def crawl_page_def enqueue_links_def rate_limited_def Let_def
           split: if_splits)

text \<open>
  The number of results at the end of a log whose \<open>error\<close> is true: the value that
  \<open>consecutive_failures\<close> is meant to hold.
\<close>

definition trailing_failures :: "page_data list \<Rightarrow> nat" where
  "trailing_failures ps = length (takeWhile (\<lambda>p. truthy (error p)) (rev ps))"

section \<open>Constructing the crawler\<close>

text \<open>
  The constructor arguments that decide which statements of \<open>WebCrawler.__init__\<close> run.
  The remaining arguments are stored or clamped and raise nothing.
\<close>

record crawler_args =
  arg_seed_url :: string
  arg_max_depth :: int
  arg_delay :: float64
  arg_max_pages :: int
  arg_enable_anti_detection :: bool
  arg_enable_proxy_rotation :: bool
  arg_delay_strategy :: string
  arg_proxy_list :: "proxy list option"
  arg_validate_proxies :: bool

definition valid_strategies :: "string list" where
  "valid_strategies = [''fixed'', ''random'', ''exponential'', ''adaptive'']"

text \<open>\<open>AntiDetectionConfig._validate_config\<close>.\<close>

definition AntiDetectionConfig_validate_config :: "string \<Rightarrow> py_exception + unit" where
  "AntiDetectionConfig_validate_config delay_strategy =
     (if delay_strategy \<notin> set valid_strategies
      then Inl (ValueError (''Invalid delay strategy. Must be one of: [''
                  @ [CHR 0x27] @ ''fixed'' @ [CHR 0x27] @ '', ''
                  @ [CHR 0x27] @ ''random'' @ [CHR 0x27] @ '', ''
                  @ [CHR 0x27] @ ''exponential'' @ [CHR 0x27] @ '', ''
                  @ [CHR 0x27] @ ''adaptive'' @ [CHR 0x27] @ '']''))
      else Inr ())"

text \<open>\<open>WebCrawler._validate_config\<close>.\<close>

definition validate_config :: "string \<Rightarrow> int \<Rightarrow> float64 \<Rightarrow> int \<Rightarrow> py_exception + unit" where
  "validate_config seed depth delay pages =
     (if seed = [] then Inl (ConfigurationError ''Seed URL cannot be empty'')
      else if depth < 0 then Inl (ConfigurationError ''Max depth cannot be negative'')
      else if flt delay (Finite 0) then Inl (ConfigurationError ''Delay cannot be negative'')
      else if pages \<le> 0 then Inl (ConfigurationError ''Max pages must be positive'')
      else if \<not> (startswith seed ''http://'' \<or> startswith seed ''https://'')
      then Inl (ConfigurationError (''Invalid seed URL scheme: '' @ seed))
      else Inr ())"

text \<open>
  \<open>WebCrawler.__init__\<close>, in the order of its statements: the strategy override of
  \<open>enable_anti_detection\<close>, the \<open>AntiDetectionConfig\<close> constructor, \<open>_validate_config\<close>,
  the data fields, \<open>urlparse(seed_url).netloc\<close> (the parameter \<open>netloc_of\<close>),
  \<open>_setup_anti_detection_components\<close> and \<open>_setup_logging\<close>.
  \<open>_setup_anti_detection_components\<close> runs before \<open>_setup_logging\<close> has assigned
  \<open>self.logger\<close>; its branch for a proxy pool calls \<open>self.logger.info\<close>.
\<close>

definition WebCrawler ::
  "(string \<Rightarrow> py_exception + string) \<Rightarrow> 'w \<Rightarrow> crawler_args \<Rightarrow> py_exception + 'w crawler" where
  "WebCrawler netloc_of w0 a =
     (let delay_strategy = (if arg_enable_anti_detection a
                            then (if arg_delay_strategy a = ''fixed'' then ''adaptive''
                                  else arg_delay_strategy a)
                            else arg_delay_strategy a);
          proxy_list_truthy = (case arg_proxy_list a of None \<Rightarrow> False | Some ps \<Rightarrow> ps \<noteq> []);
          enable_proxy_rotation = (arg_enable_proxy_rotation a \<and> proxy_list_truthy)
      in case AntiDetectionConfig_validate_config delay_strategy of
           Inl e \<Rightarrow> Inl e
         | Inr _ \<Rightarrow>
        (case validate_config (arg_seed_url a) (arg_max_depth a) (arg_delay a) (arg_max_pages a) of
           Inl e \<Rightarrow> Inl e
         | Inr _ \<Rightarrow>
        (case netloc_of (arg_seed_url a) of
           Inl e \<Rightarrow> Inl e
         | Inr base_domain \<Rightarrow>
             if enable_proxy_rotation \<and> proxy_list_truthy
             then Inl (AttributeError (([CHR 0x27] @ ''WebCrawler'' @ [CHR 0x27]
                          @ '' object has no attribute '' @ [CHR 0x27] @ ''logger'' @ [CHR 0x27])))
             else Inr \<lparr> seed_url = arg_seed_url a,
                        max_depth = arg_max_depth a,
                        max_pages = arg_max_pages a,
                        visited_urls = {},
                        crawled_data = [],
                        url_queue = [(arg_seed_url a, 0)],
                        delay_manager = DelayManager (arg_delay a) delay_strategy,
                        io_state = w0 \<rparr>)))"

section \<open>Concrete data\<close>

text \<open>The dictionary that \<open>crawl_page\<close> starts from.\<close>

definition page_data_init :: "string \<Rightarrow> float64 \<Rightarrow> page_data" where
  "page_data_init u start_time =
     \<lparr> url = u, title = [], meta_description = [], links = [], status_code = None,
       error = None, timestamp = start_time, content_type = None, content_length = None,
       response_time = None, user_agent_used = [], proxy_used = None, retry_count = 0 \<rparr>"

text \<open>
  The library with every bracketed host accepted, for the URLs evaluated in this theory:
  none of them has a bracket, so the check is not reached. For a URL with a bracketed
  host these two functions say nothing about Python.
\<close>

definition lib_urlparse :: "string \<Rightarrow> py_exception + parse_result" where
  "lib_urlparse = py_urlparse (\<lambda>h. True)"

definition lib_urljoin :: "string \<Rightarrow> string \<Rightarrow> py_exception + string" where
  "lib_urljoin = py_urljoin (\<lambda>h. True)"

text \<open>
  \<open>str(proxy)\<close> for a dictionary whose keys and values contain no quote, backslash or
  control character.
\<close>

definition str_of_proxy :: "proxy \<Rightarrow> string" where
  "str_of_proxy p =
     ''{'' @ join '', '' (map (\<lambda>kv. [CHR 0x27] @ fst kv @ [CHR 0x27] @ '': ''
                                   @ [CHR 0x27] @ snd kv @ [CHR 0x27]) p) @ ''}''"

definition proxy1 :: proxy where
  "proxy1 = [(''http'', ''http://proxy1:8080''), (''https'', ''http://proxy1:8080'')]"

definition proxy2 :: proxy where
  "proxy2 = [(''http'', ''http://proxy2:8080''), (''https'', ''http://proxy2:8080'')]"

definition robots_example :: string where
  "robots_example = ''User-agent: *'' @ [CHR 0x0A] @ ''Disallow: /private''"

text \<open>\<open>urlparse(url).netloc\<close> with the library model of this theory.\<close>

definition py_netloc :: "string \<Rightarrow> py_exception + string" where
  "py_netloc u = (case lib_urlparse u of Inl e \<Rightarrow> Inl e | Inr r \<Rightarrow> Inr (netloc r))"

definition example_pages :: "page_data list" where
  "example_pages =
     [ (page_data_init ''https://example.com'' (Finite 0))\<lparr>links := [''https://example.com/a'']\<rparr>,
       (page_data_init ''https://example.com/page2'' (Finite 0))\<lparr>error := Some ''Connection error''\<rparr>,
       page_data_init ''https://example.com/a'' (Finite 0) ]"



text \<open>The crawler that a pass of the loop body leaves.\<close>

fun step_state :: "'w step \<Rightarrow> 'w crawler" where
  "step_state (Continue s pages_crawled consecutive_failures) = s"
| "step_state (Break s) = s"

text \<open>
  A site for concrete runs: \<open>links_of\<close> gives the links extracted from a page that is
  fetched with status 200, \<open>down\<close> the pages answered with status 500.
\<close>

definition site_fetch ::
  "(string \<Rightarrow> string list) \<Rightarrow> (string \<Rightarrow> bool) \<Rightarrow> unit \<Rightarrow> string \<Rightarrow> fetched \<times> unit" where
  "site_fetch links_of down w u =
     (if down u
      then (\<lparr> assigned = (page_data_init u (Finite 0))\<lparr>status_code := Some 500,
                  content_type := Some ''text/html'', content_length := Some 0\<rparr>,
               outcome = HTTPStatus 500, clock_now = Finite 0, clock_draw = Finite 0,
               clock_after = Finite 0 \<rparr>, w)
      else (\<lparr> assigned = (page_data_init u (Finite 0))\<lparr>links := links_of u, status_code := Some 200,
                  content_type := Some ''text/html'', content_length := Some 0\<rparr>,
               outcome = Extracted, clock_now = Finite 0, clock_draw = Finite 0,
               clock_after = Finite 0 \<rparr>, w))"

definition crawler_init :: "string \<Rightarrow> int \<Rightarrow> int \<Rightarrow> unit crawler" where
  "crawler_init seed depth pages =
     \<lparr> seed_url = seed, max_depth = depth, max_pages = pages, visited_urls = {},
       crawled_data = [], url_queue = [(seed, 0)],
       delay_manager = DelayManager (Finite 0) ''fixed'', io_state = () \<rparr>"

text \<open>Page A links to B and C, and B links to C and back to A.\<close>

definition small_site :: "string \<Rightarrow> string list" where
  "small_site u = (if u = ''http://a'' then [''http://a/b'', ''http://a/c'']
                   else if u = ''http://a/b'' then [''http://a/c'', ''http://a'']
                   else [])"

text \<open>The seed links to twelve pages, all of them down.\<close>

definition wide_site :: "string \<Rightarrow> string list" where
  "wide_site u = (if u = ''http://a'' then map (\<lambda>c. ''http://a/'' @ [c]) ''bcdefghijklm'' else [])"

definition wide_down :: "string \<Rightarrow> bool" where
  "wide_down u = (u \<noteq> ''http://a'')"

section \<open>Properties of the crawl summary\<close>

lemma max_depth_reached_eq:
  "max_depth_reached ps = max 0 (int (length (successful ps)) - 1)"
proof (cases "successful ps")
  case Nil
  then show ?thesis by (simp add: max_depth_reached_def)
next
  case (Cons p qs)
  have "set (map (\<lambda>p. int (length (successful ps)) - 1) (successful ps))
        = {int (length (successful ps)) - 1}"
    using Cons by auto
  then show ?thesis
    by (simp add: max_depth_reached_def)
qed

lemma get_summary_max_depth:
  "get_summary netloc_of cd vis = Inr r \<Longrightarrow> summary_max_depth_reached r = max_depth_reached cd"
  by (auto simp: get_summary_def Let_def split: sum.splits)

lemma get_summary_returns:
  "netlocs netloc_of cd = Inr ds \<Longrightarrow> \<exists>r. get_summary netloc_of cd vis = Inr r"
  by (simp add: get_summary_def Let_def)

text \<open>
  C10. Whenever \<open>get_summary\<close> returns, its \<open>max_depth_reached\<close> entry is
  \<open>max(0, S - 1)\<close>, where \<open>S\<close> is the number of page results whose \<open>error\<close> is
  unset (false in Python's sense). The value is a function of that count alone: no depth
  enters the computation.
\<close>

theorem C10_max_depth_reached_is_success_count:
  "get_summary netloc_of cd vis = Inr r \<Longrightarrow>
     summary_max_depth_reached r
       = max 0 (int (length (filter (\<lambda>p. \<not> truthy (error p)) cd)) - 1)"
  using get_summary_max_depth [of netloc_of cd vis r] max_depth_reached_eq [of cd]
  by (simp add: successful_def)

theorem C10_max_depth_reached_witness:
  "get_summary py_netloc example_pages {''https://example.com''}
     = Inr \<lparr> total_pages_crawled = 3, successful_pages = 2, failed_pages = 1,
             total_links_found = 1, unique_urls_discovered = 1, domains_found = 1,
             summary_max_depth_reached = 1 \<rparr>
   \<and> max 0 (int (length (filter (\<lambda>p. \<not> truthy (error p)) example_pages)) - 1) = 1"
proof -
  have h: "get_summary py_netloc example_pages {''https://example.com''}
     = Inr \<lparr> total_pages_crawled = 3, successful_pages = 2, failed_pages = 1,
             total_links_found = 1, unique_urls_discovered = 1, domains_found = 1,
             summary_max_depth_reached = 1 \<rparr>"
    by code_simp
  from C10_max_depth_reached_is_success_count [OF h] h show ?thesis by simp
qed

section \<open>Properties of the robots.txt rules\<close>

lemma startswith_iff: "startswith s p \<longleftrightarrow> (\<exists>rest. s = p @ rest)"
  unfolding startswith_def
  by (metis append_eq_conv_conj append_take_drop_id)

lemma lower_directives:
  "lower ''User-agent'' = ''user-agent''" "lower ''Disallow'' = ''disallow''" "lower ''*'' = ''*''"
  by code_simp+

lemma robots_example_rules:
  "disallowed_paths (RobotsTxtParser to_float robots_example ua) = {''/private''}"
  by (simp add: RobotsTxtParser_def parse_robots_txt_def robots_example_def parse_line_def
      strip_def is_space_def code_point_def startswith_def split_once_def lower_directives Let_def)

text \<open>
  C6. \<open>can_crawl(path)\<close> is true exactly when no recorded disallowed prefix is a prefix
  of \<open>path\<close>. For the file \<open>User-agent: *\<close>, \<open>Disallow: /private\<close>, parsed for any
  user agent, \<open>/private/page\<close> is blocked and \<open>/public/page\<close> is permitted.
\<close>

theorem C6_can_crawl_iff_no_disallowed_prefix:
  "(can_crawl rp p \<longleftrightarrow> (\<forall>d \<in> disallowed_paths rp. \<not> (\<exists>rest. p = d @ rest)))
   \<and> \<not> can_crawl (RobotsTxtParser to_float robots_example ua) ''/private/page''
   \<and> can_crawl (RobotsTxtParser to_float robots_example ua) ''/public/page''"
  by (simp add: can_crawl_def startswith_iff robots_example_rules)

theorem C6_can_crawl_witness:
  "\<not> can_crawl \<lparr> robots_user_agent = ''bot'', disallowed_paths = {''/private'', ''/tmp''},
                  crawl_delay = Finite 0 \<rparr> ''/tmp/x''
   \<and> can_crawl \<lparr> robots_user_agent = ''bot'', disallowed_paths = {''/private'', ''/tmp''},
                  crawl_delay = Finite 0 \<rparr> ''/index''"
  using C6_can_crawl_iff_no_disallowed_prefix
          [of "\<lparr> robots_user_agent = ''bot'', disallowed_paths = {''/private'', ''/tmp''},
                  crawl_delay = Finite 0 \<rparr>" "''/tmp/x''" "\<lambda>s. None" "''bot''"]
        C6_can_crawl_iff_no_disallowed_prefix
          [of "\<lparr> robots_user_agent = ''bot'', disallowed_paths = {''/private'', ''/tmp''},
                  crawl_delay = Finite 0 \<rparr>" "''/index''" "\<lambda>s. None" "''bot''"]
  by simp

section \<open>Properties of the adaptive delay\<close>

lemma window_push:
  assumes "length ts \<le> 10"
  shows "push_response_time (Some t) ts = drop (length ts + 1 - 10) (ts @ [t])"
proof (cases "length ts = 10")
  case True
  then have "ts \<noteq> []" by auto
  then show ?thesis using True by (cases ts) (auto simp: push_response_time_def)
next
  case False
  with assms have "length ts < 10" by simp
  then show ?thesis by (simp add: push_response_time_def)
qed

lemma window_length:
  "length ts \<le> 10 \<Longrightarrow> length (push_response_time rt ts) \<le> 10"
  by (cases rt) (auto simp: push_response_time_def)

text \<open>Fed one sample after another, the window holds the ten most recent ones.\<close>

lemma window_fold:
  "length ts \<le> 10 \<Longrightarrow> fold (\<lambda>t w. push_response_time (Some t) w) samples ts
     = drop (length (ts @ samples) - 10) (ts @ samples)"
proof (induction samples arbitrary: ts)
  case Nil then show ?case by simp
next
  case (Cons t samples)
  have l: "length (push_response_time (Some t) ts) \<le> 10" using Cons.prems by (rule window_length)
  show ?case
  proof (cases "length ts = 10")
    case True
    then have w: "push_response_time (Some t) ts = tl ts @ [t]"
      by (cases ts) (auto simp: push_response_time_def)
    have "fold (\<lambda>t w. push_response_time (Some t) w) samples (tl ts @ [t])
          = drop (length ((tl ts @ [t]) @ samples) - 10) ((tl ts @ [t]) @ samples)"
      using Cons.IH [OF l] w by simp
    also have "\<dots> = drop (length samples) (tl ts @ t # samples)"
      using True by simp
    also have "\<dots> = drop (length samples) (drop 1 (ts @ t # samples))"
      using True by (cases ts) auto
    also have "\<dots> = drop (length (ts @ t # samples) - 10) (ts @ t # samples)"
      using True by simp
    finally show ?thesis using w by simp
  next
    case False
    with Cons.prems have lt: "length ts < 10" by simp
    then have w: "push_response_time (Some t) ts = ts @ [t]"
      by (simp add: push_response_time_def)
    show ?thesis using Cons.IH [OF l] w by simp
  qed
qed

lemma adaptive_target:
  assumes "strategy dm = ''adaptive''"
  shows "response_times (snd (target_delay dm rt draw)) = push_response_time rt (response_times dm)"
    and "fst (target_delay dm rt draw) =
       (let ts = push_response_time rt (response_times dm)
        in if ts = [] then base_delay dm
           else if fgt (average ts) (Finite 3) then fmul (base_delay dm) (Finite 2)
           else if fgt (average ts) (Finite 1) then fmul (base_delay dm) (Finite (3 / 2))
           else base_delay dm)"
  using assms by (auto simp: target_delay_def calculate_adaptive_delay_def Let_def)

lemma wait_response_times:
  "response_times (snd (wait dm rt now draw after)) = response_times (snd (target_delay dm rt draw))"
  by (simp add: wait_def Let_def)

lemma wait_fresh_adaptive:
  "strategy (snd (wait dm rt now draw after)) = strategy (snd (target_delay dm rt draw))"
  "base_delay (snd (wait dm rt now draw after)) = base_delay (snd (target_delay dm rt draw))"
  by (simp_all add: wait_def Let_def)

lemma target_keeps:
  "strategy (snd (target_delay dm rt draw)) = strategy dm"
  "base_delay (snd (target_delay dm rt draw)) = base_delay dm"
  by (simp_all add: target_delay_def calculate_adaptive_delay_def Let_def)

text \<open>
  The rounding at values known from Python: \<open>0.1\<close>, \<open>0.1 + 0.2\<close>, a tie that goes
  down to the even neighbour and one that goes up.
\<close>

lemma binary64_examples:
  "round64 (1 / 10) = Finite (3602879701896397 / 36028797018963968)"
  "fadd (round64 (1 / 10)) (round64 (2 / 10)) = Finite (1351079888211149 / 4503599627370496)"
  "round64 (3 + 1 / 2 ^ 52) = Finite 3"
  "round64 (3 + 3 / 2 ^ 52) = Finite (3 + 1 / 2 ^ 50)"
  by code_simp+

text \<open>Three samples of four seconds: the sums 4, 8, 12 and the quotient 4 are exact.\<close>

lemma average_three_fours: "average [Finite 4, Finite 4, Finite 4] = Finite 4"
  by code_simp

text \<open>
  The samples 1, 1 and \<open>1 + 2^-52\<close>: the sum \<open>3 + 2^-52\<close> lies halfway between two
  floats and is rounded to 3, so the average is 1.
\<close>

lemma average_rounded: "average [Finite 1, Finite 1, Finite (1 + 1 / 2 ^ 52)] = Finite 1"
  by code_simp

lemma window_after_three:
  "response_times (snd (wait (snd (wait (snd (wait (DelayManager b ''adaptive'') (Some x) n1 d1 a1))
                    (Some y) n2 d2 a2)) (Some z) n3 d3 a3)) = [x, y, z]"
  "strategy (snd (wait (snd (wait (snd (wait (DelayManager b ''adaptive'') (Some x) n1 d1 a1))
                    (Some y) n2 d2 a2)) (Some z) n3 d3 a3)) = ''adaptive''"
  "base_delay (snd (wait (snd (wait (snd (wait (DelayManager b ''adaptive'') (Some x) n1 d1 a1))
                    (Some y) n2 d2 a2)) (Some z) n3 d3 a3)) = b"
  by (simp_all add: wait_response_times wait_fresh_adaptive target_keeps adaptive_target
        push_response_time_def DelayManager_def)

lemma three_slow_samples:
  "fst (target_delay
      (snd (wait (snd (wait (snd (wait (DelayManager b ''adaptive'') (Some (Finite 4)) n1 d1 a1))
                    (Some (Finite 4)) n2 d2 a2)) (Some (Finite 4)) n3 d3 a3)) None d4)
   = fmul b (Finite 2)"
  using adaptive_target(2) [OF window_after_three(2), of b "Finite 4" n1 d1 a1 "Finite 4" n2 d2 a2
      "Finite 4" n3 d3 a3 None d4]
  by (simp add: window_after_three push_response_time_def average_three_fours)

text \<open>
  C4, as stated, fails where rounding decides the comparison. After the samples 1, 1
  and \<open>1 + 2^-52\<close> on a new manager with base delay 2 the mean of the window exceeds 1,
  and the delay computed is the base delay 2, not one and a half times it.
\<close>

theorem C4_rounded_mean_counterexample:
  "(1 + 1 + (1 + 1 / 2 ^ 52)) / 3 > (1 :: rat)
   \<and> response_times
        (snd (wait (snd (wait (snd (wait (DelayManager (Finite 2) ''adaptive'')
            (Some (Finite 1)) (Finite 10) (Finite 0) (Finite 10)))
            (Some (Finite 1)) (Finite 20) (Finite 0) (Finite 20)))
            (Some (Finite (1 + 1 / 2 ^ 52))) (Finite 30) (Finite 0) (Finite 30)))
       = [Finite 1, Finite 1, Finite (1 + 1 / 2 ^ 52)]
   \<and> fst (target_delay (snd (wait (snd (wait (DelayManager (Finite 2) ''adaptive'')
            (Some (Finite 1)) (Finite 10) (Finite 0) (Finite 10)))
            (Some (Finite 1)) (Finite 20) (Finite 0) (Finite 20)))
            (Some (Finite (1 + 1 / 2 ^ 52))) (Finite 0))
       = Finite 2
   \<and> fmul (Finite 2) (Finite (3 / 2)) = Finite 3"
proof -
  have m: "(1 + 1 + (1 + 1 / 2 ^ 52)) / 3 > (1 :: rat)" by simp
  have w: "response_times
        (snd (wait (snd (wait (snd (wait (DelayManager (Finite 2) ''adaptive'')
            (Some (Finite 1)) (Finite 10) (Finite 0) (Finite 10)))
            (Some (Finite 1)) (Finite 20) (Finite 0) (Finite 20)))
            (Some (Finite (1 + 1 / 2 ^ 52))) (Finite 30) (Finite 0) (Finite 30)))
       = [Finite 1, Finite 1, Finite (1 + 1 / 2 ^ 52)]"
    by (rule window_after_three(1))
  have two: "response_times (snd (wait (snd (wait (DelayManager (Finite 2) ''adaptive'')
            (Some (Finite 1)) (Finite 10) (Finite 0) (Finite 10)))
            (Some (Finite 1)) (Finite 20) (Finite 0) (Finite 20))) = [Finite 1, Finite 1]"
       "strategy (snd (wait (snd (wait (DelayManager (Finite 2) ''adaptive'')
            (Some (Finite 1)) (Finite 10) (Finite 0) (Finite 10)))
            (Some (Finite 1)) (Finite 20) (Finite 0) (Finite 20))) = ''adaptive''"
       "base_delay (snd (wait (snd (wait (DelayManager (Finite 2) ''adaptive'')
            (Some (Finite 1)) (Finite 10) (Finite 0) (Finite 10)))
            (Some (Finite 1)) (Finite 20) (Finite 0) (Finite 20))) = Finite 2"
    by (simp_all add: wait_response_times wait_fresh_adaptive target_keeps adaptive_target
          push_response_time_def DelayManager_def)
  have d: "fst (target_delay (snd (wait (snd (wait (DelayManager (Finite 2) ''adaptive'')
            (Some (Finite 1)) (Finite 10) (Finite 0) (Finite 10)))
            (Some (Finite 1)) (Finite 20) (Finite 0) (Finite 20)))
            (Some (Finite (1 + 1 / 2 ^ 52))) (Finite 0)) = Finite 2"
  proof -
    have n: "average [Finite 1, Finite 1, Finite (4503599627370497 / 4503599627370496)]
             = Finite 1"
      using average_rounded by simp
    show ?thesis
      using adaptive_target(2) [OF two(2), of "Some (Finite (1 + 1 / 2 ^ 52))" "Finite 0"]
      by (simp add: two push_response_time_def n Let_def)
  qed
  have p: "fmul (Finite 2) (Finite (3 / 2)) = Finite 3" by code_simp
  from m w d p show ?thesis by blast
qed

text \<open>
  C4, amended. Under the adaptive strategy, with the window \<open>ts\<close> that a call of
  \<open>wait\<close> leaves (the sample appended when there is one, the oldest entry dropped
  beyond ten) and with \<open>avg\<close> the float that \<open>sum(ts) / len(ts)\<close> computes, the delay
  computed in that call is the base delay when \<open>ts\<close> is empty, the float product of
  the base delay and 2.0 when \<open>avg\<close> exceeds 3.0, the float product of the base delay
  and 1.5 when \<open>avg\<close> exceeds 1.0, the base delay otherwise; \<open>ts\<close> never holds more
  than ten samples. After three calls with a sample of 4.0 seconds on a new manager, the
  next call computes 2.0 times the base delay.
\<close>

theorem C4_adaptive_delay:
  assumes "strategy dm = ''adaptive''" and "length (response_times dm) \<le> 10"
  shows "(let ts = (case rt of None \<Rightarrow> response_times dm
                     | Some t \<Rightarrow> drop (length (response_times dm) + 1 - 10)
                                   (response_times dm @ [t]))
          in response_times (snd (wait dm rt now draw after)) = ts
             \<and> length ts \<le> 10
             \<and> fst (target_delay dm rt draw) =
                 (if ts = [] then base_delay dm
                  else if fgt (average ts) (Finite 3) then fmul (base_delay dm) (Finite 2)
                  else if fgt (average ts) (Finite 1) then fmul (base_delay dm) (Finite (3 / 2))
                  else base_delay dm))
         \<and> fst (target_delay
              (snd (wait (snd (wait (snd (wait (DelayManager b ''adaptive'')
                  (Some (Finite 4)) n1 d1 a1)) (Some (Finite 4)) n2 d2 a2))
                  (Some (Finite 4)) n3 d3 a3)) None d4) = fmul b (Finite 2)"
proof -
  have p: "push_response_time rt (response_times dm)
           = (case rt of None \<Rightarrow> response_times dm
              | Some t \<Rightarrow> drop (length (response_times dm) + 1 - 10) (response_times dm @ [t]))"
    using window_push [OF assms(2)] by (cases rt) (simp_all add: push_response_time_def)
  have l: "length (push_response_time rt (response_times dm)) \<le> 10"
    using assms(2) by (rule window_length)
  show ?thesis
    unfolding Let_def p [symmetric]
    using adaptive_target [OF assms(1), of rt draw] l
      three_slow_samples [of b n1 d1 a1 n2 d2 a2 n3 d3 a3 d4]
    by (simp add: wait_response_times Let_def)
qed

theorem C4_adaptive_delay_witness:
  "strategy (DelayManager (Finite 2) ''adaptive'') = ''adaptive''
   \<and> length (response_times (DelayManager (Finite 2) ''adaptive'')) \<le> 10
   \<and> response_times (snd (wait (DelayManager (Finite 2) ''adaptive'') (Some (Finite 4))
        (Finite 100) (Finite 0) (Finite 101))) = [Finite 4]
   \<and> fst (target_delay (DelayManager (Finite 2) ''adaptive'') (Some (Finite 4)) (Finite 0))
       = Finite 4
   \<and> fst (target_delay (DelayManager (Finite 2) ''adaptive'') (Some (Finite 2)) (Finite 0))
       = Finite 3
   \<and> fst (target_delay (DelayManager (Finite 2) ''adaptive'') (Some (Finite 1)) (Finite 0))
       = Finite 2
   \<and> fst (target_delay (DelayManager (Finite 2) ''adaptive'') None (Finite 0)) = Finite 2"
proof -
  have s: "strategy (DelayManager (Finite 2) ''adaptive'') = ''adaptive''"
    by (simp add: DelayManager_def)
  have l: "length (response_times (DelayManager (Finite 2) ''adaptive'')) \<le> 10"
    by (simp add: DelayManager_def)
  have r: "response_times (DelayManager (Finite 2) ''adaptive'') = []"
          "base_delay (DelayManager (Finite 2) ''adaptive'') = Finite 2"
    by (simp_all add: DelayManager_def)
  have a: "average [Finite 4] = Finite 4" "average [Finite 2] = Finite 2"
          "average [Finite 1] = Finite 1"
    by code_simp+
  have m: "round64 4 = Finite 4" "round64 3 = Finite 3"
    by code_simp+
  show ?thesis
    using s l
      C4_adaptive_delay [OF s l, of "Some (Finite 4)" "Finite 100" "Finite 0" "Finite 101"
         "Finite 0" "Finite 0" "Finite 0" "Finite 0" "Finite 0" "Finite 0" "Finite 0" "Finite 0"
         "Finite 0" "Finite 0" "Finite 0"]
      C4_adaptive_delay [OF s l, of "Some (Finite 2)" "Finite 100" "Finite 0" "Finite 101"
         "Finite 0" "Finite 0" "Finite 0" "Finite 0" "Finite 0" "Finite 0" "Finite 0" "Finite 0"
         "Finite 0" "Finite 0" "Finite 0"]
      C4_adaptive_delay [OF s l, of "Some (Finite 1)" "Finite 100" "Finite 0" "Finite 101"
         "Finite 0" "Finite 0" "Finite 0" "Finite 0" "Finite 0" "Finite 0" "Finite 0" "Finite 0"
         "Finite 0" "Finite 0" "Finite 0"]
      C4_adaptive_delay [OF s l, of None "Finite 100" "Finite 0" "Finite 101"
         "Finite 0" "Finite 0" "Finite 0" "Finite 0" "Finite 0" "Finite 0" "Finite 0" "Finite 0"
         "Finite 0" "Finite 0" "Finite 0"]
    by (simp add: r a m Let_def)
qed

section \<open>Properties of the proxy rotator\<close>


lemma cycle_next_simps [simp]:
  "fst (cycle_next (xs, k)) = xs ! (k mod length xs)"
  "snd (cycle_next (xs, k)) = (xs, Suc k)"
  by (simp_all add: cycle_next_def)

lemma try_proxies_Some:
  "try_proxies f F n (xs, k) = (Some p, it') \<Longrightarrow>
     \<exists>j<n. p = xs ! ((k + j) mod length xs) \<and> f p \<notin> F
           \<and> (\<forall>i<j. f (xs ! ((k + i) mod length xs)) \<in> F) \<and> it' = (xs, Suc (k + j))"
proof (induction n arbitrary: k)
  case 0 then show ?case by simp
next
  case (Suc n)
  show ?case
  proof (cases "f (xs ! (k mod length xs)) \<notin> F")
    case True
    with Suc.prems show ?thesis by (intro exI [of _ 0]) auto
  next
    case False
    with Suc.prems have "try_proxies f F n (xs, Suc k) = (Some p, it')" by simp
    from Suc.IH [OF this] obtain j where j: "j < n" "p = xs ! ((Suc k + j) mod length xs)" "f p \<notin> F"
      "\<forall>i<j. f (xs ! ((Suc k + i) mod length xs)) \<in> F" "it' = (xs, Suc (Suc k + j))" by blast
    have "\<forall>i<Suc j. f (xs ! ((k + i) mod length xs)) \<in> F"
    proof (intro allI impI)
      fix i assume "i < Suc j"
      show "f (xs ! ((k + i) mod length xs)) \<in> F"
      proof (cases i)
        case 0 with False show ?thesis by simp
      next
        case (Suc i') with \<open>i < Suc j\<close> j(4) show ?thesis by simp
      qed
    qed
    with j show ?thesis by (intro exI [of _ "Suc j"]) auto
  qed
qed

lemma try_proxies_None:
  "try_proxies f F n (xs, k) = (None, it') \<Longrightarrow>
     (\<forall>i<n. f (xs ! ((k + i) mod length xs)) \<in> F) \<and> it' = (xs, k + n)"
proof (induction n arbitrary: k)
  case 0 then show ?case by simp
next
  case (Suc n)
  from Suc.prems have F: "f (xs ! (k mod length xs)) \<in> F"
    by (auto split: if_splits)
  with Suc.prems have "try_proxies f F n (xs, Suc k) = (None, it')" by simp
  from Suc.IH [OF this] have ih: "\<forall>i<n. f (xs ! ((Suc k + i) mod length xs)) \<in> F" "it' = (xs, Suc k + n)"
    by auto
  have "\<forall>i<Suc n. f (xs ! ((k + i) mod length xs)) \<in> F"
  proof (intro allI impI)
    fix i assume "i < Suc n"
    show "f (xs ! ((k + i) mod length xs)) \<in> F"
    proof (cases i)
      case 0 with F show ?thesis by simp
    next
      case (Suc i') with \<open>i < Suc n\<close> ih(1) show ?thesis by simp
    qed
  qed
  with ih show ?case by simp
qed

lemma cyclic_cover:
  assumes "m < (n::nat)"
  shows "\<exists>i<n. (k + i) mod n = m"
proof -
  let ?i = "(m + (n - k mod n)) mod n"
  have "?i < n" using assms by simp
  moreover have "(k + ?i) mod n = m"
  proof -
    have "(k + ?i) mod n = (k mod n + (m + (n - k mod n))) mod n"
      by (simp add: mod_simps)
    also have "k mod n + (m + (n - k mod n)) = m + n"
    proof -
      have "k mod n < n" using assms by simp
      then show ?thesis by arith
    qed
    also have "(m + n) mod n = m" using assms by simp
    finally show ?thesis .
  qed
  ultimately show ?thesis by blast
qed

lemma all_failed_iff:
  assumes "xs \<noteq> []"
  shows "(\<forall>i<length xs. f (xs ! ((k + i) mod length xs)) \<in> F) \<longleftrightarrow> (\<forall>q\<in>set xs. f q \<in> F)"
proof
  assume a: "\<forall>i<length xs. f (xs ! ((k + i) mod length xs)) \<in> F"
  show "\<forall>q\<in>set xs. f q \<in> F"
  proof
    fix q assume "q \<in> set xs"
    then obtain m where m: "m < length xs" "q = xs ! m" by (auto simp: in_set_conv_nth)
    from cyclic_cover [OF m(1), of k] obtain i where "i < length xs" "(k + i) mod length xs = m" by blast
    with a m show "f q \<in> F" by auto
  qed
next
  assume a: "\<forall>q\<in>set xs. f q \<in> F"
  show "\<forall>i<length xs. f (xs ! ((k + i) mod length xs)) \<in> F"
    using a assms by simp
qed

text \<open>
  C5. For a rotator in a state that its constructor and methods can produce, with a
  non-empty pool, \<open>get_next\<close> returns a member of the pool, never \<open>None\<close>. When some
  member's key is outside the failed set, the member returned is not failed and the
  failed set is unchanged. When every member's key is in the failed set, the failed set
  is cleared and the member the iterator points at is returned.
\<close>

theorem C5_get_next_never_starves:
  assumes ok: "rotator_ok r" and ne: "proxies r \<noteq> []"
  shows "\<exists>p r'. get_next str_of r = (Some p, r')
           \<and> p \<in> set (proxies r) \<and> proxies r' = proxies r \<and> rotator_ok r'
           \<and> ((\<exists>q\<in>set (proxies r). str_of q \<notin> failed_proxies r)
                 \<longrightarrow> str_of p \<notin> failed_proxies r \<and> failed_proxies r' = failed_proxies r)
           \<and> ((\<forall>q\<in>set (proxies r). str_of q \<in> failed_proxies r)
                 \<longrightarrow> failed_proxies r' = {}
                     \<and> (\<exists>k. iterator r = Some (proxies r, k)
                            \<and> p = proxies r ! (k mod length (proxies r))))"
proof -
  from ok ne obtain k where it: "iterator r = Some (proxies r, k)"
    by (cases "iterator r") (auto simp: rotator_ok_def)
  let ?xs = "proxies r" and ?n = "length (proxies r)" and ?F = "failed_proxies r"
  have n0: "?n > 0" using ne by simp
  obtain res it' where t: "try_proxies str_of ?F ?n (?xs, k) = (res, it')" by (metis surj_pair)
  show ?thesis
  proof (cases res)
    case None
    from try_proxies_None [OF t [unfolded None]]
    have a: "\<forall>i<?n. str_of (?xs ! ((k + i) mod ?n)) \<in> ?F" and i: "it' = (?xs, k + ?n)" by auto
    from a have all: "\<forall>q\<in>set ?xs. str_of q \<in> ?F" using all_failed_iff [OF ne] by blast
    have g: "get_next str_of r = (Some (?xs ! (k mod ?n)),
               r\<lparr>failed_proxies := {}, iterator := Some (?xs, Suc (k + ?n))\<rparr>)"
      using it ne t None i by (simp add: get_next_def)
    show ?thesis
      using g all ne it n0 by (auto simp: rotator_ok_def)
  next
    case (Some p)
    from try_proxies_Some [OF t [unfolded Some]] obtain j where
      j: "j < ?n" "p = ?xs ! ((k + j) mod ?n)" "str_of p \<notin> ?F" "it' = (?xs, Suc (k + j))" by blast
    have g: "get_next str_of r = (Some p, r\<lparr>iterator := Some it'\<rparr>)"
      using it ne t Some by (simp add: get_next_def)
    have pin: "p \<in> set ?xs" using j(2) n0 by simp
    show ?thesis
      using g pin j(3,4) ne by (auto simp: rotator_ok_def)
  qed
qed

lemma rotator_ok_init: "rotator_ok (ProxyRotator alive ps v)"
  by (auto simp: rotator_ok_def ProxyRotator_def new_iterator_def)

lemma rotator_ok_mark_failed: "rotator_ok r \<Longrightarrow> rotator_ok (mark_failed str_of p r)"
  by (auto simp: rotator_ok_def mark_failed_def split: option.splits)

lemma rotator_ok_add_proxy: "rotator_ok r \<Longrightarrow> rotator_ok (snd (add_proxy alive p v r))"
  by (auto simp: rotator_ok_def add_proxy_def new_iterator_def split: option.splits)

text \<open>Both proxies of a pool of two marked failed: \<open>get_next\<close> still yields one.\<close>

theorem C5_get_next_witness:
  "rotator_ok (mark_failed str_of_proxy proxy2 (mark_failed str_of_proxy proxy1
       (ProxyRotator (\<lambda>p. True) [proxy1, proxy2] True)))
   \<and> proxies (mark_failed str_of_proxy proxy2 (mark_failed str_of_proxy proxy1
       (ProxyRotator (\<lambda>p. True) [proxy1, proxy2] True))) \<noteq> []
   \<and> fst (get_next str_of_proxy (mark_failed str_of_proxy proxy2 (mark_failed str_of_proxy proxy1
       (ProxyRotator (\<lambda>p. True) [proxy1, proxy2] True)))) \<noteq> None"
proof -
  let ?r = "mark_failed str_of_proxy proxy2 (mark_failed str_of_proxy proxy1
       (ProxyRotator (\<lambda>p. True) [proxy1, proxy2] True))"
  have ok: "rotator_ok ?r"
    by (intro rotator_ok_mark_failed rotator_ok_init)
  have ne: "proxies ?r \<noteq> []"
    by (simp add: mark_failed_def ProxyRotator_def)
  from C5_get_next_never_starves [OF ok ne, of str_of_proxy]
  have "fst (get_next str_of_proxy ?r) \<noteq> None" by auto
  with ok ne show ?thesis by simp
qed

section \<open>Properties of URL normalisation\<close>

text \<open>
  C7, as stated, fails. Resolving \<open>mailto:a@b.c\<close> against \<open>https://example.com/\<close>
  gives a URL with a scheme and no host, and \<open>normalize_url\<close> returns the string
  \<open>mailto://a@b.c\<close>; it raises nothing.
\<close>

theorem C7_no_host_counterexample:
  "lib_urljoin ''https://example.com/'' ''mailto:a@b.c'' = Inr ''mailto:a@b.c''
   \<and> lib_urlparse ''mailto:a@b.c''
       = Inr \<lparr> scheme = ''mailto'', netloc = [], path = ''a@b.c'', params = [],
               query = [], fragment = [] \<rparr>
   \<and> normalize_url lib_urljoin lib_urlparse ''mailto:a@b.c'' ''https://example.com/''
       = Inr ''mailto://a@b.c''"
  by code_simp

text \<open>
  C7, amended. \<open>normalize_url\<close> fails exactly when \<open>urljoin\<close> or \<open>urlparse\<close> raises,
  and then with \<open>InvalidURLError\<close>. Whenever the resolved URL parses, the reconstructed
  string is returned, whatever its scheme and host are.
\<close>

theorem C7_normalize_url_fails_iff_library_raises:
  "((\<exists>m. normalize_url J P u b = Inl (InvalidURLError m))
      \<longleftrightarrow> ((\<exists>e. J b u = Inl e) \<or> (\<exists>a e. J b u = Inr a \<and> P a = Inl e)))
   \<and> (\<forall>e. normalize_url J P u b = Inl e \<longrightarrow> (\<exists>m. e = InvalidURLError m))
   \<and> (\<forall>a parsed. J b u = Inr a \<and> P a = Inr parsed
         \<longrightarrow> normalize_url J P u b = Inr (rebuild parsed))"
  by (auto simp: normalize_url_def split: sum.splits)

theorem C7_normalize_url_witness:
  "lib_urljoin ''https://example.com/'' ''page#section'' = Inr ''https://example.com/page#section''
   \<and> lib_urlparse ''https://example.com/page#section''
       = Inr \<lparr> scheme = ''https'', netloc = ''example.com'', path = ''/page'', params = [],
               query = [], fragment = ''section'' \<rparr>
   \<and> normalize_url lib_urljoin lib_urlparse ''page#section'' ''https://example.com/''
       = Inr ''https://example.com/page''"
proof -
  have j: "lib_urljoin ''https://example.com/'' ''page#section''
           = Inr ''https://example.com/page#section''"
    by code_simp
  have p: "lib_urlparse ''https://example.com/page#section''
       = Inr \<lparr> scheme = ''https'', netloc = ''example.com'', path = ''/page'', params = [],
               query = [], fragment = ''section'' \<rparr>"
    by code_simp
  have r: "rebuild \<lparr> scheme = ''https'', netloc = ''example.com'', path = ''/page'', params = [],
               query = [], fragment = ''section'' \<rparr> = ''https://example.com/page''"
    by code_simp
  from C7_normalize_url_fails_iff_library_raises
         [of lib_urljoin lib_urlparse "''page#section''" "''https://example.com/''"] j p r
  show ?thesis by simp
qed

text \<open>
  C8. The comment in the source says that the trailing slash is removed from the path.
  The test is made on the whole string after the query has been appended: a query that
  ends in a slash loses it, and a path that ends in a slash keeps it when a query
  follows.
\<close>

theorem C8_slash_taken_from_query:
  "normalize_url lib_urljoin lib_urlparse ''https://example.com/login?next=/''
       ''https://example.com/'' = Inr ''https://example.com/login?next=''
   \<and> normalize_url lib_urljoin lib_urlparse ''/docs/?page=2'' ''https://example.com/''
       = Inr ''https://example.com/docs/?page=2''
   \<and> normalize_url lib_urljoin lib_urlparse ''/docs/'' ''https://example.com/''
       = Inr ''https://example.com/docs''"
  by code_simp

section \<open>Properties of the constructor\<close>

text \<open>With a recognised strategy, each invalid argument raises \<open>ConfigurationError\<close>.\<close>

lemma validate_config_raises:
  "seed = [] \<or> depth < 0 \<or> flt delay (Finite 0) \<or> pages \<le> 0
     \<or> \<not> (startswith seed ''http://'' \<or> startswith seed ''https://'')
   \<Longrightarrow> \<exists>m. validate_config seed depth delay pages = Inl (ConfigurationError m)"
  by (auto simp: validate_config_def)

text \<open>
  C9. An unrecognised delay strategy leaves the constructor with \<open>ValueError\<close>, raised
  by \<open>AntiDetectionConfig\<close> before \<open>_validate_config\<close> runs, not with
  \<open>ConfigurationError\<close>. Valid arguments with proxy rotation and a proxy list leave it
  with \<open>AttributeError\<close>, since \<open>self.logger\<close> is used before it is assigned.
\<close>

theorem C9_constructor_raises_other_errors:
  "WebCrawler py_netloc ()
     \<lparr> arg_seed_url = ''https://example.com'', arg_max_depth = 3, arg_delay = Finite 1,
       arg_max_pages = 100, arg_enable_anti_detection = False,
       arg_enable_proxy_rotation = False, arg_delay_strategy = ''bogus'',
       arg_proxy_list = None, arg_validate_proxies = True \<rparr>
   = Inl (ValueError (''Invalid delay strategy. Must be one of: [''
                  @ [CHR 0x27] @ ''fixed'' @ [CHR 0x27] @ '', ''
                  @ [CHR 0x27] @ ''random'' @ [CHR 0x27] @ '', ''
                  @ [CHR 0x27] @ ''exponential'' @ [CHR 0x27] @ '', ''
                  @ [CHR 0x27] @ ''adaptive'' @ [CHR 0x27] @ '']''))
   \<and> WebCrawler py_netloc ()
     \<lparr> arg_seed_url = ''https://example.com'', arg_max_depth = 3, arg_delay = Finite 1,
       arg_max_pages = 100, arg_enable_anti_detection = False,
       arg_enable_proxy_rotation = True, arg_delay_strategy = ''fixed'',
       arg_proxy_list = Some [proxy1], arg_validate_proxies = False \<rparr>
   = Inl (AttributeError ([CHR 0x27] @ ''WebCrawler'' @ [CHR 0x27]
            @ '' object has no attribute '' @ [CHR 0x27] @ ''logger'' @ [CHR 0x27]))"
  by code_simp

section \<open>Properties of the crawl loop\<close>

declare crawl_loop.simps [simp del]

declare fetched_entries.simps [simp del]

lemma error_of_truthy: "truthy (error_of oc) \<longleftrightarrow> error_of oc \<noteq> None"
  by (cases oc) simp_all

lemma crawl_page_url: "url (fst (crawl_page io s u)) = u"
  by (simp add: crawl_page_def Let_def)

lemma crawl_page_error: "truthy (error (fst (crawl_page io s u))) \<longleftrightarrow> error (fst (crawl_page io s u)) \<noteq> None"
  by (simp add: crawl_page_def Let_def error_of_truthy)

lemma crawl_page_state:
  "visited_urls (snd (crawl_page io s u)) = visited_urls s"
  "crawled_data (snd (crawl_page io s u)) = crawled_data s"
  "url_queue (snd (crawl_page io s u)) = url_queue s"
  "max_depth (snd (crawl_page io s u)) = max_depth s"
  "max_pages (snd (crawl_page io s u)) = max_pages s"
  by (simp_all add: crawl_page_def Let_def)

lemma rate_limited_state:
  "visited_urls (rate_limited p s) = visited_urls s"
  "crawled_data (rate_limited p s) = crawled_data s"
  "url_queue (rate_limited p s) = url_queue s"
  "max_depth (rate_limited p s) = max_depth s"
  "max_pages (rate_limited p s) = max_pages s"
  by (simp_all add: rate_limited_def)

lemma enqueue_links_state:
  "visited_urls (enqueue_links p d s) = visited_urls s"
  "crawled_data (enqueue_links p d s) = crawled_data s"
  "max_depth (enqueue_links p d s) = max_depth s"
  "max_pages (enqueue_links p d s) = max_pages s"
  by (simp_all add: enqueue_links_def)

lemma iteration_skip:
  "u \<in> visited_urls s \<or> d > max_depth s \<Longrightarrow> crawl_iteration io s u d pc cf = Continue s pc cf"
  by (auto simp: crawl_iteration_def)

lemma iteration_fetch:
  assumes "u \<notin> visited_urls s" "d \<le> max_depth s"
  shows "\<exists>page s'. url page = u
          \<and> (truthy (error page) \<longleftrightarrow> error page \<noteq> None)
          \<and> page = fst (crawl_page io (s\<lparr>visited_urls := insert u (visited_urls s)\<rparr>) u)
          \<and> crawled_data s' = crawled_data s @ [page]
          \<and> visited_urls s' = insert u (visited_urls s)
          \<and> max_depth s' = max_depth s \<and> max_pages s' = max_pages s
          \<and> ((truthy (error page) \<and> cf + 1 \<ge> 10 \<and> crawl_iteration io s u d pc cf = Break s')
             \<or> (truthy (error page) \<and> cf + 1 < 10
                  \<and> crawl_iteration io s u d pc cf = Continue s' (pc + 1) (cf + 1))
             \<or> (\<not> truthy (error page)
                  \<and> crawl_iteration io s u d pc cf = Continue s' (pc + 1) 0))"
proof -
  let ?s1 = "s\<lparr>visited_urls := insert u (visited_urls s)\<rparr>"
  let ?page = "fst (crawl_page io ?s1 u)"
  let ?s3 = "(snd (crawl_page io ?s1 u))\<lparr>crawled_data := crawled_data (snd (crawl_page io ?s1 u)) @ [?page]\<rparr>"
  have it: "crawl_iteration io s u d pc cf =
     (if truthy (error ?page) then
              (if cf + 1 \<ge> 10 then Break ?s3
               else Continue (rate_limited ?page ?s3) (pc + 1) (cf + 1))
            else Continue (rate_limited ?page (enqueue_links ?page d ?s3)) (pc + 1) 0)"
    using assms by (simp add: crawl_iteration_def Let_def max_consecutive_failures_def)
  show ?thesis
  proof (cases "truthy (error ?page)")
    case False
    then show ?thesis
      using it
      by (intro exI [of _ ?page] exI [of _ "rate_limited ?page (enqueue_links ?page d ?s3)"])
         (simp add: crawl_page_url crawl_page_error crawl_page_state rate_limited_state enqueue_links_state)
  next
    case True
    show ?thesis
    proof (cases "cf + 1 \<ge> 10")
      case c: True
      show ?thesis using it True c
        by (intro exI [of _ ?page] exI [of _ ?s3])
           (simp add: crawl_page_url crawl_page_error crawl_page_state)
    next
      case c: False
      show ?thesis using it True c
        by (intro exI [of _ ?page] exI [of _ "rate_limited ?page ?s3"])
           (simp add: crawl_page_url crawl_page_error crawl_page_state rate_limited_state)
    qed
  qed
qed


text \<open>
  An invariant rule for the loop. \<open>P\<close> speaks about the visited set, the result log and
  the failure counter; it must be kept by a fetch of an unvisited URL.
\<close>

lemma crawl_loop_invariant:
  assumes step: "\<And>V C c page. P V C c \<Longrightarrow> c < 10 \<Longrightarrow> url page \<notin> V
             \<Longrightarrow> (truthy (error page) \<longleftrightarrow> error page \<noteq> None)
             \<Longrightarrow> P (insert (url page) V) (C @ [page]) (if truthy (error page) then c + 1 else 0)"
  shows "P (visited_urls s) (crawled_data s) cf \<Longrightarrow> cf < 10
         \<Longrightarrow> \<exists>c. P (visited_urls (crawl_loop io s pc cf)) (crawled_data (crawl_loop io s pc cf)) c"
proof (induction io s pc cf rule: crawl_loop.induct)
  case (1 io s pc cf)
  show ?case
  proof (cases "url_queue s")
    case Nil
    then have "crawl_loop io s pc cf = s" by (subst crawl_loop.simps) simp
    with "1.prems" show ?thesis by auto
  next
    case (Cons entry rest)
    show ?thesis
    proof (cases "pc < max_pages s")
      case False
      with Cons have "crawl_loop io s pc cf = s" by (subst crawl_loop.simps) simp
      with "1.prems" show ?thesis by auto
    next
      case True
      let ?s0 = "s\<lparr>url_queue := rest\<rparr>"
      let ?u = "fst entry" and ?d = "snd entry"
      have unfold: "crawl_loop io s pc cf =
          (case crawl_iteration io ?s0 ?u ?d pc cf of
             Break s' \<Rightarrow> s' | Continue s' pc' cf' \<Rightarrow> crawl_loop io s' pc' cf')"
        using Cons True by (subst crawl_loop.simps) simp
      show ?thesis
      proof (cases "?u \<in> visited_urls ?s0 \<or> ?d > max_depth ?s0")
        case skip: True
        from iteration_skip [OF skip]
        have it: "crawl_iteration io ?s0 ?u ?d pc cf = Continue ?s0 pc cf" .
        have "\<exists>c. P (visited_urls (crawl_loop io ?s0 pc cf)) (crawled_data (crawl_loop io ?s0 pc cf)) c"
          using "1.IH" [OF Cons True it] "1.prems" by simp
        then show ?thesis using unfold it by simp
      next
        case fetch: False
        then have nv: "?u \<notin> visited_urls ?s0" and dd: "?d \<le> max_depth ?s0" by auto
        from iteration_fetch [OF nv dd, of io cf pc] obtain page s' where
          pg: "url page = ?u" "truthy (error page) \<longleftrightarrow> error page \<noteq> None"
              "crawled_data s' = crawled_data ?s0 @ [page]"
              "visited_urls s' = insert ?u (visited_urls ?s0)"
          and alt: "(truthy (error page) \<and> cf + 1 \<ge> 10 \<and> crawl_iteration io ?s0 ?u ?d pc cf = Break s')
             \<or> (truthy (error page) \<and> cf + 1 < 10
                  \<and> crawl_iteration io ?s0 ?u ?d pc cf = Continue s' (pc + 1) (cf + 1))
             \<or> (\<not> truthy (error page)
                  \<and> crawl_iteration io ?s0 ?u ?d pc cf = Continue s' (pc + 1) 0)"
          by blast
        have P': "P (visited_urls s') (crawled_data s') (if truthy (error page) then cf + 1 else 0)"
          using step [of "visited_urls s" "crawled_data s" cf page] "1.prems" nv pg by simp
        from alt show ?thesis
        proof (elim disjE conjE)
          assume a: "truthy (error page)" "crawl_iteration io ?s0 ?u ?d pc cf = Break s'"
          then have "crawl_loop io s pc cf = s'" using unfold by simp
          with P' show ?thesis by auto
        next
          assume a: "truthy (error page)" "cf + 1 < 10"
             "crawl_iteration io ?s0 ?u ?d pc cf = Continue s' (pc + 1) (cf + 1)"
          have "\<exists>c. P (visited_urls (crawl_loop io s' (pc + 1) (cf + 1)))
                     (crawled_data (crawl_loop io s' (pc + 1) (cf + 1))) c"
            using "1.IH" [OF Cons True a(3)] P' a(1,2) by simp
          then show ?thesis using unfold a(3) by simp
        next
          assume a: "\<not> truthy (error page)"
             "crawl_iteration io ?s0 ?u ?d pc cf = Continue s' (pc + 1) 0"
          have "\<exists>c. P (visited_urls (crawl_loop io s' (pc + 1) 0))
                     (crawled_data (crawl_loop io s' (pc + 1) 0)) c"
            using "1.IH" [OF Cons True a(2)] P' a(1) by simp
          then show ?thesis using unfold a(2) by simp
        qed
      qed
    qed
  qed
qed

lemma crawl_distinct:
  assumes "distinct (map url (crawled_data s))" "url ` set (crawled_data s) \<subseteq> visited_urls s" "cf < 10"
  shows "distinct (map url (crawled_data (crawl_loop io s pc cf)))
         \<and> url ` set (crawled_data (crawl_loop io s pc cf)) \<subseteq> visited_urls (crawl_loop io s pc cf)"
proof -
  let ?P = "\<lambda>V C (c::nat). distinct (map url C) \<and> url ` set C \<subseteq> V"
  have "\<exists>c. ?P (visited_urls (crawl_loop io s pc cf)) (crawled_data (crawl_loop io s pc cf)) c"
    by (rule crawl_loop_invariant [where P = ?P]) (use assms in auto)
  then show ?thesis by simp
qed


lemma trailing_failures_snoc:
  "trailing_failures (ps @ [p]) = (if truthy (error p) then Suc (trailing_failures ps) else 0)"
  by (simp add: trailing_failures_def)

lemma trailing_failures_all:
  "\<forall>p\<in>set ys. truthy (error p) \<Longrightarrow> trailing_failures (xs @ ys) \<ge> length ys"
proof -
  assume a: "\<forall>p\<in>set ys. truthy (error p)"
  have "takeWhile (\<lambda>p. truthy (error p)) (rev ys @ rev xs)
        = rev ys @ takeWhile (\<lambda>p. truthy (error p)) (rev xs)"
    by (rule takeWhile_append2) (use a in auto)
  then show ?thesis by (simp add: trailing_failures_def)
qed

lemma crawl_no_result_after_ten_failures:
  assumes "cf = 0"
  shows "\<exists>new. crawled_data (crawl_loop io s pc cf) = crawled_data s @ new
           \<and> (\<forall>n<length new. trailing_failures (take n new) < 10)
           \<and> (\<forall>p\<in>set new. truthy (error p) \<longleftrightarrow> error p \<noteq> None)"
proof -
  let ?k = "length (crawled_data s)"
  let ?old = "crawled_data s"
  let ?P = "\<lambda>(V::string set) C c. \<exists>new. C = ?old @ new \<and> c = trailing_failures new
              \<and> (\<forall>n<length new. trailing_failures (take n new) < 10)
              \<and> (\<forall>p\<in>set new. truthy (error p) \<longleftrightarrow> error p \<noteq> None)"
  have "\<exists>c. ?P (visited_urls (crawl_loop io s pc cf)) (crawled_data (crawl_loop io s pc cf)) c"
  proof (rule crawl_loop_invariant [where P = ?P])
    show "?P (visited_urls s) (crawled_data s) cf"
      using assms by (intro exI [of _ "[]"]) (simp add: trailing_failures_def)
    show "cf < 10" using assms by simp
  next
    fix V :: "string set" and C c and page :: page_data
    assume P: "?P V C c" and c: "c < 10"
      and e: "truthy (error page) \<longleftrightarrow> error page \<noteq> None"
    from P obtain new where n: "C = ?old @ new" "c = trailing_failures new"
      "\<forall>n<length new. trailing_failures (take n new) < 10"
      "\<forall>p\<in>set new. truthy (error p) \<longleftrightarrow> error p \<noteq> None" by blast
    have pre: "\<forall>m<length (new @ [page]). trailing_failures (take m (new @ [page])) < 10"
    proof (intro allI impI)
      fix m assume "m < length (new @ [page])"
      then have "m < length new \<or> m = length new" by auto
      then show "trailing_failures (take m (new @ [page])) < 10"
        using n(2,3) c by auto
    qed
    show "?P (insert (url page) V) (C @ [page]) (if truthy (error page) then c + 1 else 0)"
      using n(1,2,4) e pre
      by (intro exI [of _ "new @ [page]"]) (simp add: trailing_failures_snoc)
  qed
  then show ?thesis by blast
qed

lemma ten_failures_end_the_log:
  assumes pre: "\<forall>n<length new. trailing_failures (take n new) < 10"
    and split: "new = xs @ ys @ zs" and len: "length ys = 10"
    and fail: "\<forall>p\<in>set ys. truthy (error p)"
  shows "zs = []"
proof (rule ccontr)
  assume "zs \<noteq> []"
  then have "length xs + 10 < length new" using split len by simp
  with pre have "trailing_failures (take (length xs + 10) new) < 10" by blast
  moreover have "take (length xs + 10) new = xs @ ys" using split len by simp
  moreover have "trailing_failures (xs @ ys) \<ge> 10"
    using trailing_failures_all [OF fail, of xs] len by simp
  ultimately show False by simp
qed

lemma fetched_entries_log:
  "\<exists>pages. crawled_data (crawl_loop io s pc cf) = crawled_data s @ pages
        \<and> map url pages = map fst (fetched_entries io s pc cf)
        \<and> (\<forall>e\<in>set (fetched_entries io s pc cf). snd e \<le> max_depth s)"
proof (induction io s pc cf rule: crawl_loop.induct)
  case (1 io s pc cf)
  show ?case
  proof (cases "url_queue s")
    case Nil
    have "crawl_loop io s pc cf = s"
      using Nil by (subst crawl_loop.simps) simp
    moreover have "fetched_entries io s pc cf = []"
      using Nil by (subst fetched_entries.simps) simp
    ultimately show ?thesis by simp
  next
    case (Cons entry rest)
    show ?thesis
    proof (cases "pc < max_pages s")
      case False
      have "crawl_loop io s pc cf = s"
        using Cons False by (subst crawl_loop.simps) simp
      moreover have "fetched_entries io s pc cf = []"
        using Cons False by (subst fetched_entries.simps) simp
      ultimately show ?thesis by simp
    next
      case True
      let ?s0 = "s\<lparr>url_queue := rest\<rparr>"
      let ?u = "fst entry" and ?d = "snd entry"
      let ?here = "if ?u \<in> visited_urls s \<or> ?d > max_depth s then [] else [entry]"
      have unfold: "crawl_loop io s pc cf =
          (case crawl_iteration io ?s0 ?u ?d pc cf of
             Break s' \<Rightarrow> s' | Continue s' pc' cf' \<Rightarrow> crawl_loop io s' pc' cf')"
        using Cons True by (subst crawl_loop.simps) simp
      have unfold_f: "fetched_entries io s pc cf =
          (case crawl_iteration io ?s0 ?u ?d pc cf of
             Break s' \<Rightarrow> ?here
           | Continue s' pc' cf' \<Rightarrow> ?here @ fetched_entries io s' pc' cf')"
        using Cons True by (subst fetched_entries.simps) (simp add: Let_def)
      show ?thesis
      proof (cases "?u \<in> visited_urls ?s0 \<or> ?d > max_depth ?s0")
        case skip: True
        from iteration_skip [OF skip]
        have it: "crawl_iteration io ?s0 ?u ?d pc cf = Continue ?s0 pc cf" .
        from "1.IH" [OF Cons True it] obtain pages where
          "crawled_data (crawl_loop io ?s0 pc cf) = crawled_data ?s0 @ pages"
          "map url pages = map fst (fetched_entries io ?s0 pc cf)"
          "\<forall>e\<in>set (fetched_entries io ?s0 pc cf). snd e \<le> max_depth ?s0" by blast
        then show ?thesis using unfold unfold_f it skip by simp
      next
        case fetch: False
        then have nv: "?u \<notin> visited_urls ?s0" and dd: "?d \<le> max_depth ?s0" by auto
        have here: "?here = [entry]" using fetch by simp
        from iteration_fetch [OF nv dd, of io cf pc] obtain page s' where
          pg: "url page = ?u" "crawled_data s' = crawled_data ?s0 @ [page]"
              "max_depth s' = max_depth ?s0"
          and alt: "(truthy (error page) \<and> cf + 1 \<ge> 10 \<and> crawl_iteration io ?s0 ?u ?d pc cf = Break s')
             \<or> (truthy (error page) \<and> cf + 1 < 10
                  \<and> crawl_iteration io ?s0 ?u ?d pc cf = Continue s' (pc + 1) (cf + 1))
             \<or> (\<not> truthy (error page)
                  \<and> crawl_iteration io ?s0 ?u ?d pc cf = Continue s' (pc + 1) 0)"
          by blast
        from alt show ?thesis
        proof (elim disjE conjE)
          assume a: "crawl_iteration io ?s0 ?u ?d pc cf = Break s'"
          then have "crawl_loop io s pc cf = s'" "fetched_entries io s pc cf = [entry]"
            using unfold unfold_f here by simp_all
          then show ?thesis using pg dd by simp
        next
          assume a: "crawl_iteration io ?s0 ?u ?d pc cf = Continue s' (pc + 1) (cf + 1)"
          from "1.IH" [OF Cons True a] obtain pages where
            ih: "crawled_data (crawl_loop io s' (pc + 1) (cf + 1)) = crawled_data s' @ pages"
            "map url pages = map fst (fetched_entries io s' (pc + 1) (cf + 1))"
            "\<forall>e\<in>set (fetched_entries io s' (pc + 1) (cf + 1)). snd e \<le> max_depth s'" by blast
          have "crawl_loop io s pc cf = crawl_loop io s' (pc + 1) (cf + 1)"
               "fetched_entries io s pc cf = entry # fetched_entries io s' (pc + 1) (cf + 1)"
            using unfold unfold_f here a by simp_all
          then show ?thesis using ih pg dd by simp
        next
          assume a: "crawl_iteration io ?s0 ?u ?d pc cf = Continue s' (pc + 1) 0"
          from "1.IH" [OF Cons True a] obtain pages where
            ih: "crawled_data (crawl_loop io s' (pc + 1) 0) = crawled_data s' @ pages"
            "map url pages = map fst (fetched_entries io s' (pc + 1) 0)"
            "\<forall>e\<in>set (fetched_entries io s' (pc + 1) 0). snd e \<le> max_depth s'" by blast
          have "crawl_loop io s pc cf = crawl_loop io s' (pc + 1) 0"
               "fetched_entries io s pc cf = entry # fetched_entries io s' (pc + 1) 0"
            using unfold unfold_f here a by simp_all
          then show ?thesis using ih pg dd by simp
        qed
      qed
    qed
  qed
qed

lemma crawl_loop_dequeue:
  "pc < max_pages s \<Longrightarrow>
     crawl_loop io (s\<lparr>url_queue := (u, d) # rest\<rparr>) pc cf =
       (case crawl_iteration io (s\<lparr>url_queue := rest\<rparr>) u d pc cf of
          Break s' \<Rightarrow> s' | Continue s' pc' cf' \<Rightarrow> crawl_loop io s' pc' cf')"
  by (subst crawl_loop.simps) simp

lemma iteration_break:
  assumes "u \<notin> visited_urls s" "d \<le> max_depth s"
    and "error (fst (crawl_page io (s\<lparr>visited_urls := insert u (visited_urls s)\<rparr>) u)) \<noteq> None"
  shows "crawl_iteration io s u d pc 9 =
           Break ((snd (crawl_page io (s\<lparr>visited_urls := insert u (visited_urls s)\<rparr>) u))
              \<lparr>crawled_data := crawled_data s
                 @ [fst (crawl_page io (s\<lparr>visited_urls := insert u (visited_urls s)\<rparr>) u)]\<rparr>)"
  using assms crawl_page_error [of io "s\<lparr>visited_urls := insert u (visited_urls s)\<rparr>" u]
  by (simp add: crawl_iteration_def Let_def max_consecutive_failures_def crawl_page_state)

text \<open>
  C1. A dequeued URL that is in the visited set leaves the crawler and both counters
  as they are: nothing is fetched. A URL that is fetched is put into the visited set,
  and the page appended comes from a call of \<open>crawl_page\<close> on a crawler whose visited
  set holds it. If the URLs of the result log are distinct and visited when \<open>crawl\<close>
  starts, as they are for a new crawler, they are distinct when it returns.
\<close>

theorem C1_no_url_fetched_twice:
  "(u \<in> visited_urls s \<longrightarrow> crawl_iteration io s u d pc cf = Continue s pc cf)
   \<and> (u \<notin> visited_urls s \<and> d \<le> max_depth s \<longrightarrow>
        u \<in> visited_urls (step_state (crawl_iteration io s u d pc cf))
        \<and> crawled_data (step_state (crawl_iteration io s u d pc cf))
            = crawled_data s
              @ [fst (crawl_page io (s\<lparr>visited_urls := insert u (visited_urls s)\<rparr>) u)])
   \<and> (distinct (map url (crawled_data s)) \<and> url ` set (crawled_data s) \<subseteq> visited_urls s
        \<longrightarrow> distinct (map url (crawled_data (crawl io s)))
            \<and> url ` set (crawled_data (crawl io s)) \<subseteq> visited_urls (crawl io s))"
proof (intro conjI impI)
  assume "u \<in> visited_urls s"
  then show "crawl_iteration io s u d pc cf = Continue s pc cf"
    using iteration_skip [of u s d io pc cf] by simp
next
  assume a: "u \<notin> visited_urls s \<and> d \<le> max_depth s"
  from iteration_fetch [of u s d io cf pc] a obtain page s' where
    pg: "page = fst (crawl_page io (s\<lparr>visited_urls := insert u (visited_urls s)\<rparr>) u)"
        "crawled_data s' = crawled_data s @ [page]"
        "visited_urls s' = insert u (visited_urls s)"
        "step_state (crawl_iteration io s u d pc cf) = s'"
    by fastforce
  show "u \<in> visited_urls (step_state (crawl_iteration io s u d pc cf))"
    using pg by simp
  show "crawled_data (step_state (crawl_iteration io s u d pc cf))
            = crawled_data s
              @ [fst (crawl_page io (s\<lparr>visited_urls := insert u (visited_urls s)\<rparr>) u)]"
    using pg by simp
next
  assume a: "distinct (map url (crawled_data s)) \<and> url ` set (crawled_data s) \<subseteq> visited_urls s"
  then have "distinct (map url (crawled_data (crawl_loop io s 0 0)))
         \<and> url ` set (crawled_data (crawl_loop io s 0 0)) \<subseteq> visited_urls (crawl_loop io s 0 0)"
    by (intro crawl_distinct) auto
  then show "distinct (map url (crawled_data (crawl io s)))"
    and "url ` set (crawled_data (crawl io s)) \<subseteq> visited_urls (crawl io s)"
    by (simp_all add: crawl_def)
qed

theorem C1_no_url_fetched_twice_witness:
  "distinct (map url (crawled_data (crawler_init ''http://a'' 2 10)))
   \<and> url ` set (crawled_data (crawler_init ''http://a'' 2 10))
        \<subseteq> visited_urls (crawler_init ''http://a'' 2 10)
   \<and> map url (crawled_data (crawl (site_fetch small_site (\<lambda>u. False))
                                (crawler_init ''http://a'' 2 10)))
        = [''http://a'', ''http://a/b'', ''http://a/c'']
   \<and> distinct (map url (crawled_data (crawl (site_fetch small_site (\<lambda>u. False))
                                          (crawler_init ''http://a'' 2 10))))"
proof -
  have h: "distinct (map url (crawled_data (crawler_init ''http://a'' 2 10)))
           \<and> url ` set (crawled_data (crawler_init ''http://a'' 2 10))
                \<subseteq> visited_urls (crawler_init ''http://a'' 2 10)"
    by (simp add: crawler_init_def)
  have e: "map url (crawled_data (crawl (site_fetch small_site (\<lambda>u. False))
                                (crawler_init ''http://a'' 2 10)))
        = [''http://a'', ''http://a/b'', ''http://a/c'']"
    by code_simp
  from C1_no_url_fetched_twice
         [of "''http://a''" "crawler_init ''http://a'' 2 10" "site_fetch small_site (\<lambda>u. False)" 0 0 0] h
  have "distinct (map url (crawled_data (crawl (site_fetch small_site (\<lambda>u. False))
                                          (crawler_init ''http://a'' 2 10))))"
    by blast
  with h e show ?thesis by simp
qed

text \<open>
  C2. A dequeued entry whose depth exceeds \<open>max_depth\<close> leaves the crawler and both
  counters as they are, and the loop goes on as if the entry had not been in the queue.
  The results that a run appends are, in order, the results of the frontier entries
  listed by \<open>fetched_entries\<close>, and none of these has a depth above \<open>max_depth\<close>.
\<close>

theorem C2_no_result_beyond_max_depth:
  "(d > max_depth s \<longrightarrow> crawl_iteration io s u d pc cf = Continue s pc cf)
   \<and> (d > max_depth s \<and> pc < max_pages s \<longrightarrow>
        crawl_loop io (s\<lparr>url_queue := (u, d) # rest\<rparr>) pc cf
          = crawl_loop io (s\<lparr>url_queue := rest\<rparr>) pc cf)
   \<and> (\<exists>pages. crawled_data (crawl_loop io s pc cf) = crawled_data s @ pages
          \<and> map url pages = map fst (fetched_entries io s pc cf))
   \<and> (\<forall>e\<in>set (fetched_entries io s pc cf). snd e \<le> max_depth s)"
proof (intro conjI impI)
  assume "d > max_depth s"
  then show "crawl_iteration io s u d pc cf = Continue s pc cf"
    using iteration_skip [of u s d io pc cf] by simp
next
  assume a: "d > max_depth s \<and> pc < max_pages s"
  then have "crawl_iteration io (s\<lparr>url_queue := rest\<rparr>) u d pc cf
             = Continue (s\<lparr>url_queue := rest\<rparr>) pc cf"
    using iteration_skip [of u "s\<lparr>url_queue := rest\<rparr>" d io pc cf] by simp
  then show "crawl_loop io (s\<lparr>url_queue := (u, d) # rest\<rparr>) pc cf
          = crawl_loop io (s\<lparr>url_queue := rest\<rparr>) pc cf"
    using a crawl_loop_dequeue [of pc s io u d rest cf] by simp
next
  show "\<exists>pages. crawled_data (crawl_loop io s pc cf) = crawled_data s @ pages
          \<and> map url pages = map fst (fetched_entries io s pc cf)"
    using fetched_entries_log [of io s pc cf] by blast
next
  show "\<forall>e\<in>set (fetched_entries io s pc cf). snd e \<le> max_depth s"
    using fetched_entries_log [of io s pc cf] by blast
qed

theorem C2_no_result_beyond_max_depth_witness:
  "(5::int) > max_depth (crawler_init ''http://a'' 1 10)
   \<and> (0::int) < max_pages (crawler_init ''http://a'' 1 10)
   \<and> crawled_data (crawl_loop (site_fetch small_site (\<lambda>u. False))
        ((crawler_init ''http://a'' 1 10)\<lparr>url_queue := [(''http://a/deep'', 5), (''http://a'', 0)]\<rparr>)
        0 0)
      = crawled_data (crawl_loop (site_fetch small_site (\<lambda>u. False))
        ((crawler_init ''http://a'' 1 10)\<lparr>url_queue := [(''http://a'', 0)]\<rparr>) 0 0)
   \<and> fetched_entries (site_fetch small_site (\<lambda>u. False)) (crawler_init ''http://a'' 1 10) 0 0
      = [(''http://a'', 0), (''http://a/b'', 1), (''http://a/c'', 1)]
   \<and> list_all (\<lambda>e. snd e \<le> 1)
        (fetched_entries (site_fetch small_site (\<lambda>u. False))
           (crawler_init ''http://a'' 1 10) 0 0)"
proof -
  have h: "(5::int) > max_depth (crawler_init ''http://a'' 1 10)"
          "(0::int) < max_pages (crawler_init ''http://a'' 1 10)"
          "max_depth (crawler_init ''http://a'' 1 10) = 1"
    by (simp_all add: crawler_init_def)
  have e: "fetched_entries (site_fetch small_site (\<lambda>u. False)) (crawler_init ''http://a'' 1 10) 0 0
      = [(''http://a'', 0), (''http://a/b'', 1), (''http://a/c'', 1)]"
    by code_simp
  from C2_no_result_beyond_max_depth
         [of "crawler_init ''http://a'' 1 10" 5 "site_fetch small_site (\<lambda>u. False)"
             "''http://a/deep''" 0 0 "[(''http://a'', 0)]"] h
  show ?thesis using e by (simp add: list_all_iff)
qed

lemma split_eleven: "take 1 xs @ take 10 (drop 1 xs) @ drop 11 xs = xs"
proof -
  have "drop 11 xs = drop 10 (drop 1 xs)" by simp
  then have "take 10 (drop 1 xs) @ drop 11 xs = drop 1 xs"
    by (simp only: append_take_drop_id)
  then show ?thesis by (simp only: append_take_drop_id)
qed

text \<open>
  C3. Among the results that one call of \<open>crawl\<close> appends, ten consecutive results with
  \<open>error\<close> set are the last ones: the loop has stopped. When the counter stands at nine
  and the next fetch fails, the loop returns with that result appended and the rest of
  the queue left as it is, whatever the queue holds and however far \<open>pages_crawled\<close> is
  from \<open>max_pages\<close>. A fetch without error sets the counter to zero. \<open>crawl\<close> returns the
  crawler with its result log in each case.
\<close>

theorem C3_ten_consecutive_failures_stop:
  "(\<forall>xs ys zs. drop (length (crawled_data s)) (crawled_data (crawl io s)) = xs @ ys @ zs
        \<and> length ys = 10 \<and> (\<forall>p\<in>set ys. error p \<noteq> None) \<longrightarrow> zs = [])
   \<and> (u \<notin> visited_urls s \<and> d \<le> max_depth s \<and> pc < max_pages s
        \<and> error (fst (crawl_page io
              (s\<lparr>url_queue := rest, visited_urls := insert u (visited_urls s)\<rparr>) u)) \<noteq> None
      \<longrightarrow> crawled_data (crawl_loop io (s\<lparr>url_queue := (u, d) # rest\<rparr>) pc 9)
            = crawled_data s
              @ [fst (crawl_page io
                   (s\<lparr>url_queue := rest, visited_urls := insert u (visited_urls s)\<rparr>) u)]
          \<and> url_queue (crawl_loop io (s\<lparr>url_queue := (u, d) # rest\<rparr>) pc 9) = rest)
   \<and> (u \<notin> visited_urls s \<and> d \<le> max_depth s
        \<and> error (fst (crawl_page io (s\<lparr>visited_urls := insert u (visited_urls s)\<rparr>) u)) = None
      \<longrightarrow> (\<exists>s'. crawl_iteration io s u d pc cf = Continue s' (pc + 1) 0))"
proof (intro conjI allI impI)
  fix xs ys zs
  assume a: "drop (length (crawled_data s)) (crawled_data (crawl io s)) = xs @ ys @ zs
        \<and> length ys = 10 \<and> (\<forall>p\<in>set ys. error p \<noteq> None)"
  from crawl_no_result_after_ten_failures [of 0 io s 0] obtain new where
    n: "crawled_data (crawl_loop io s 0 0) = crawled_data s @ new"
       "\<forall>n<length new. trailing_failures (take n new) < 10"
       "\<forall>p\<in>set new. truthy (error p) \<longleftrightarrow> error p \<noteq> None"
    by blast
  from a n(1) have sp: "new = xs @ ys @ zs" by (simp add: crawl_def)
  have "\<forall>p\<in>set ys. truthy (error p)" using a n(3) sp by auto
  with n(2) sp a show "zs = []"
    using ten_failures_end_the_log [of new xs ys zs] by blast
next
  let ?s0 = "s\<lparr>url_queue := rest\<rparr>"
  let ?s1 = "s\<lparr>url_queue := rest, visited_urls := insert u (visited_urls s)\<rparr>"
  assume a: "u \<notin> visited_urls s \<and> d \<le> max_depth s \<and> pc < max_pages s
        \<and> error (fst (crawl_page io ?s1 u)) \<noteq> None"
  have s1: "?s0\<lparr>visited_urls := insert u (visited_urls ?s0)\<rparr> = ?s1" by simp
  have b: "crawl_iteration io ?s0 u d pc 9 =
           Break ((snd (crawl_page io ?s1 u))\<lparr>crawled_data := crawled_data ?s0
                 @ [fst (crawl_page io ?s1 u)]\<rparr>)"
    using iteration_break [of u ?s0 d io pc] a unfolding s1 by simp
  have l: "crawl_loop io (s\<lparr>url_queue := (u, d) # rest\<rparr>) pc 9
           = (snd (crawl_page io ?s1 u))\<lparr>crawled_data := crawled_data ?s0
                 @ [fst (crawl_page io ?s1 u)]\<rparr>"
    using a b crawl_loop_dequeue [of pc s io u d rest 9] by simp
  show "crawled_data (crawl_loop io (s\<lparr>url_queue := (u, d) # rest\<rparr>) pc 9)
            = crawled_data s @ [fst (crawl_page io ?s1 u)]"
    unfolding l by simp
  show "url_queue (crawl_loop io (s\<lparr>url_queue := (u, d) # rest\<rparr>) pc 9) = rest"
    unfolding l by (simp add: crawl_page_state)
next
  assume a: "u \<notin> visited_urls s \<and> d \<le> max_depth s
        \<and> error (fst (crawl_page io (s\<lparr>visited_urls := insert u (visited_urls s)\<rparr>) u)) = None"
  then show "\<exists>s'. crawl_iteration io s u d pc cf = Continue s' (pc + 1) 0"
    by (simp add: crawl_iteration_def Let_def)
qed

theorem C3_ten_consecutive_failures_witness:
  "map (\<lambda>p. error p \<noteq> None)
       (crawled_data (crawl (site_fetch wide_site wide_down) (crawler_init ''http://a'' 2 100)))
     = [False, True, True, True, True, True, True, True, True, True, True]
   \<and> url_queue (crawl (site_fetch wide_site wide_down) (crawler_init ''http://a'' 2 100))
     = [(''http://a/l'', 1), (''http://a/m'', 1)]
   \<and> length (crawled_data (crawl (site_fetch wide_site wide_down)
                (crawler_init ''http://a'' 2 100))) < 100
   \<and> drop 11 (crawled_data (crawl (site_fetch wide_site wide_down)
                (crawler_init ''http://a'' 2 100))) = []"
proof -
  let ?r = "crawled_data (crawl (site_fetch wide_site wide_down) (crawler_init ''http://a'' 2 100))"
  have e: "map (\<lambda>p. error p \<noteq> None) ?r
           = [False, True, True, True, True, True, True, True, True, True, True]"
    by code_simp
  have q: "url_queue (crawl (site_fetch wide_site wide_down) (crawler_init ''http://a'' 2 100))
     = [(''http://a/l'', 1), (''http://a/m'', 1)]"
    by code_simp
  have len: "length ?r = 11" using arg_cong [OF e, of length] by simp
  have c0: "crawled_data (crawler_init ''http://a'' 2 100) = []" by (simp add: crawler_init_def)
  have fails: "\<forall>p\<in>set (take 10 (drop 1 ?r)). error p \<noteq> None"
  proof -
    have "map (\<lambda>p. error p \<noteq> None) (take 10 (drop 1 ?r)) = replicate 10 True"
      unfolding take_map [symmetric] drop_map [symmetric] e by code_simp
    then have "\<forall>b\<in>set (map (\<lambda>p. error p \<noteq> None) (take 10 (drop 1 ?r))). b" by simp
    then show ?thesis by simp
  qed
  have split: "drop (length (crawled_data (crawler_init ''http://a'' 2 100))) ?r
          = take 1 ?r @ take 10 (drop 1 ?r) @ drop 11 ?r"
    unfolding c0 by (simp only: split_eleven list.size drop_0)
  have l10: "length (take 10 (drop 1 ?r)) = 10" using len by simp
  from C3_ten_consecutive_failures_stop
         [of "crawler_init ''http://a'' 2 100" "site_fetch wide_site wide_down"]
  have "drop 11 ?r = []" using split l10 fails by blast
  with e q len show ?thesis by simp
qed

end
